theory Spec2Isabelle
  imports Main "HOL-Library.AList"
begin

unbundle bit_operations_syntax

section \<open>Python values used by qlcs.py\<close>

text \<open>
  Symbols are 8-bit characters (code points below 256), a Python \<open>str\<close> is a
  \<open>string\<close>. Positions, lengths and counters that the source subtracts are
  \<open>int\<close>; string indices, which only count upwards from zero, are \<open>nat\<close>.
  The only exception the module can raise is Python's built-in IndexError.
\<close>

datatype py_error = IndexError

definition py_getitem :: "string \<Rightarrow> int \<Rightarrow> py_error + char" where
  \<comment> \<open>\<open>s[i]\<close>: a negative index counts from the end\<close>
  "py_getitem s i =
     (let n = int (length s); j = (if i < 0 then n + i else i)
      in if 0 \<le> j \<and> j < n then Inr (s ! nat j) else Inl IndexError)"

definition py_slice :: "string \<Rightarrow> int \<Rightarrow> int \<Rightarrow> string" where
  \<comment> \<open>\<open>s[a:b]\<close>: negative bounds count from the end, all bounds are clamped\<close>
  "py_slice s a b =
     (let n = int (length s);
          a' = (if a < 0 then max (a + n) 0 else min a n);
          b' = (if b < 0 then max (b + n) 0 else min b n)
      in take (nat (b' - a')) (drop (nat a') s))"

primrec find_from :: "char \<Rightarrow> string \<Rightarrow> int \<Rightarrow> int" where
  "find_from c [] i = - 1"
| "find_from c (x # xs) i = (if x = c then i else find_from c xs (i + 1))"

definition py_find :: "string \<Rightarrow> char \<Rightarrow> int" where
  \<comment> \<open>\<open>s.find(c)\<close>\<close>
  "py_find s c = find_from c s 0"

primrec py_split :: "char \<Rightarrow> string \<Rightarrow> string list" where
  \<comment> \<open>\<open>s.split(c)\<close>\<close>
  "py_split c [] = [[]]"
| "py_split c (x # xs) =
     (if x = c then [] # py_split c xs
      else (case py_split c xs of [] \<Rightarrow> [[x]] | p # ps \<Rightarrow> (x # p) # ps))"

definition is_digit :: "char \<Rightarrow> bool" where
  "is_digit c = (c \<in> set ''0123456789'')"

definition py_strip_digits :: "string \<Rightarrow> string" where
  \<comment> \<open>\<open>s.strip('0123456789')\<close>\<close>
  "py_strip_digits s = rev (dropWhile is_digit (rev (dropWhile is_digit s)))"

definition digit_char :: "nat \<Rightarrow> char" where
  "digit_char d = ''0123456789'' ! d"

function py_str :: "nat \<Rightarrow> string" where
  \<comment> \<open>\<open>str(n)\<close> for a non-negative integer\<close>
  "py_str n = (if n < 10 then [digit_char n] else py_str (n div 10) @ [digit_char (n mod 10)])"
  by pat_completeness auto
termination
  by (relation "measure id") auto

declare py_str.simps [simp del]

definition strip_ending :: "string \<Rightarrow> string" where
  \<comment> \<open>drop the longest suffix of the form \<open>\$?\d*\<close>\<close>
  "strip_ending s =
     (let r = dropWhile is_digit (rev s)
      in rev (case r of [] \<Rightarrow> [] | c # r' \<Rightarrow> if c = CHR ''$'' then r' else r))"

definition remove_unique_ending :: "string \<Rightarrow> string" where
  \<comment> \<open>\<open>re.sub(r'(.*?)\$?\d*$', r'\1', s)\<close>: \<open>.\<close> does not match a newline and
      \<open>$\<close> also matches just before a newline that ends the string, so the ending
      is removed in front of a final newline too\<close>
  "remove_unique_ending s =
     (if s \<noteq> [] \<and> last s = CHR 0x0A then strip_ending (butlast s) @ [CHR 0x0A]
      else strip_ending s)"

function extract_identifiers_from :: "int \<Rightarrow> nat \<Rightarrow> nat list" where
  "extract_identifiers_from bv identifier =
     (if bv > 0
      then (if bv mod 2 = 1 then [identifier] else []) @
           extract_identifiers_from (drop_bit 1 bv) (identifier + 1)
      else [])"
  by pat_completeness auto
termination
  by (relation "measure (\<lambda>(bv, i). nat bv)") (auto simp: drop_bit_eq_div)

declare extract_identifiers_from.simps [simp del]

definition extract_identifiers :: "int \<Rightarrow> nat list" where
  \<comment> \<open>\<open>_extract_identifiers\<close>: the positions of the set bits, ascending\<close>
  "extract_identifiers bv = extract_identifiers_from bv 0"

section \<open>Nodes and the tree\<close>

text \<open>
  Node objects live in an arena: a reference to a node is its position in the list
  \<open>nodes\<close>, and \<open>None\<close> is \<open>None\<close>. The class counter \<open>identifier\<close> is
  only printed by the graphviz helper and is left out. The dictionary \<open>edges\<close> is an
  association list in insertion order, which is the order Python iterates it in.
\<close>

definition END_OF_STRING :: int where
  "END_OF_STRING = 10 ^ 10"

record node =
  start :: int
  end_index :: int
  edges :: "(char \<times> nat) list"
  parent :: "nat option"
  suffix_link :: "nat option"
  bit_vector :: int

record suffix_tree =
  nodes :: "node list"
  input_string :: string
  strings_count :: nat
  leaves :: "nat list"
  classes :: "(string \<times> nat list) list"

definition root :: nat where
  \<comment> \<open>the arena slot of \<open>self.root\<close>\<close>
  "root = 0"

definition new_node :: "int \<Rightarrow> int \<Rightarrow> node" where
  \<comment> \<open>\<open>SuffixTreeNode.__init__\<close>\<close>
  "new_node st en =
     \<lparr>start = st, end_index = en, edges = [], parent = None, suffix_link = None,
      bit_vector = 0\<rparr>"

definition new_tree :: suffix_tree where
  \<comment> \<open>\<open>SuffixTree.__init__\<close>\<close>
  "new_tree =
     \<lparr>nodes = [new_node 0 END_OF_STRING], input_string = [], strings_count = 0,
      leaves = [], classes = []\<rparr>"

definition add_child :: "node list \<Rightarrow> nat \<Rightarrow> char \<Rightarrow> int \<Rightarrow> int \<Rightarrow> node list \<times> nat" where
  "add_child ns self key st en =
     (let child = length ns;
          ns1 = ns @ [(new_node st en)\<lparr>parent := Some self\<rparr>]
      in (ns1[self := (ns1 ! self)\<lparr>edges := AList.update key child (edges (ns1 ! self))\<rparr>],
          child))"

definition add_exisiting_node_as_child :: "node list \<Rightarrow> nat \<Rightarrow> char \<Rightarrow> nat \<Rightarrow> node list" where
  "add_exisiting_node_as_child ns self key nd =
     (let ns1 = ns[nd := (ns ! nd)\<lparr>parent := Some self\<rparr>]
      in ns1[self := (ns1 ! self)\<lparr>edges := AList.update key nd (edges (ns1 ! self))\<rparr>])"

definition get_edge_length :: "node \<Rightarrow> int \<Rightarrow> int" where
  "get_edge_length nd current_index = min (end_index nd) (current_index + 1) - start nd"

definition set_suffix_link :: "node list \<Rightarrow> nat option \<Rightarrow> nat \<Rightarrow> node list" where
  \<comment> \<open>\<open>if previous_node is not None: previous_node.suffix_link = target\<close>\<close>
  "set_suffix_link ns previous target =
     (case previous of None \<Rightarrow> ns
      | Some p \<Rightarrow> ns[p := (ns ! p)\<lparr>suffix_link := Some target\<rparr>])"

section \<open>append_string\<close>

record ukkonen =
  u_nodes :: "node list"
  active_node :: nat
  active_edge :: int
  active_length :: int
  remainder :: int
  previous_node :: "nat option"
  new_leaves :: "nat list"

text \<open>
  An exception that leaves the main circle is kept together with the nodes as the aborted
  pass leaves them.
\<close>

type_synonym raised = "py_error \<times> node list"

definition follow_link :: "int \<Rightarrow> ukkonen \<Rightarrow> ukkonen" where
  \<comment> \<open>lines 205-212: \<open>remainder -= 1\<close>, then the suffix link or the root\<close>
  "follow_link index u =
     (let u1 = u\<lparr>remainder := remainder u - 1\<rparr>
      in if active_node u1 = root \<and> active_length u1 > 0
         then u1\<lparr>active_length := active_length u1 - 1,
                 active_edge := index - remainder u1 + 1\<rparr>
         else u1\<lparr>active_node :=
                   (case suffix_link (u_nodes u1 ! active_node u1) of
                      None \<Rightarrow> root | Some l \<Rightarrow> l)\<rparr>)"

datatype 'a flow = Next 'a | Break 'a

definition new_leaf :: "node list \<Rightarrow> nat \<Rightarrow> char \<Rightarrow> int \<Rightarrow> nat \<Rightarrow> node list \<times> nat" where
  \<comment> \<open>\<open>add_child(key, index, END_OF_STRING)\<close> and \<open>bit_vector = 1 << current_string_index\<close>\<close>
  "new_leaf ns self key index current_string_index =
     (case add_child ns self key index END_OF_STRING of
        (ns1, leaf) \<Rightarrow>
          (ns1[leaf := (ns1 ! leaf)\<lparr>bit_vector := push_bit current_string_index 1\<rparr>], leaf))"

definition insert_leaf :: "nat \<Rightarrow> int \<Rightarrow> ukkonen \<Rightarrow> char \<Rightarrow> ukkonen" where
  \<comment> \<open>lines 155-166: no edge starts with the current symbol\<close>
  "insert_leaf current_string_index index u key =
     (case new_leaf (u_nodes u) (active_node u) key index current_string_index of
        (ns1, leaf) \<Rightarrow>
          u\<lparr>u_nodes := set_suffix_link ns1 (previous_node u) (active_node u),
            new_leaves := new_leaves u @ [leaf],
            previous_node := Some (active_node u)\<rparr>)"

definition split_edge ::
  "string \<Rightarrow> nat \<Rightarrow> int \<Rightarrow> ukkonen \<Rightarrow> char \<Rightarrow> nat \<Rightarrow> raised + ukkonen" where
  \<comment> \<open>lines 188-203: splitting the edge that leads to \<open>next_node\<close>\<close>
  "split_edge s current_string_index index u key next_node =
     (case add_child (u_nodes u) (active_node u) key
             (start (u_nodes u ! next_node))
             (start (u_nodes u ! next_node) + active_length u) of
        (ns1, split_node) \<Rightarrow>
          (let ns2 = ns1[next_node := (ns1 ! next_node)
                      \<lparr>start := start (ns1 ! next_node) + active_length u\<rparr>]
           in case py_getitem s (start (ns2 ! next_node)) of
                Inl e \<Rightarrow> Inl (e, ns2)
              | Inr c3 \<Rightarrow>
                  (let ns3 = add_exisiting_node_as_child ns2 split_node c3 next_node
                   in case py_getitem s index of
                        Inl e \<Rightarrow> Inl (e, ns3)
                      | Inr c2 \<Rightarrow>
                          (case new_leaf ns3 split_node c2 index current_string_index of
                             (ns4, leaf) \<Rightarrow>
                               Inr (u\<lparr>u_nodes := set_suffix_link ns4 (previous_node u) split_node,
                                      new_leaves := new_leaves u @ [leaf],
                                      previous_node := Some split_node\<rparr>)))))"

definition on_edge ::
  "string \<Rightarrow> nat \<Rightarrow> int \<Rightarrow> ukkonen \<Rightarrow> char \<Rightarrow> nat \<Rightarrow> raised + ukkonen flow" where
  \<comment> \<open>lines 168-203: an edge starts with the current symbol\<close>
  "on_edge s current_string_index index u key next_node =
     (let next_edge_length = get_edge_length (u_nodes u ! next_node) index
      in if active_length u \<ge> next_edge_length
         then Inr (Next (u\<lparr>active_edge := active_edge u + next_edge_length,
                           active_length := active_length u - next_edge_length,
                           active_node := next_node\<rparr>))
         else
           (case py_getitem s (start (u_nodes u ! next_node) + active_length u) of
              Inl e \<Rightarrow> Inl (e, u_nodes u)
            | Inr c1 \<Rightarrow>
                (case py_getitem s index of
                   Inl e \<Rightarrow> Inl (e, u_nodes u)
                 | Inr c2 \<Rightarrow>
                     if c1 = c2
                     then Inr (Break (u\<lparr>active_length := active_length u + 1,
                                        u_nodes := set_suffix_link (u_nodes u) (previous_node u)
                                                     (active_node u),
                                        previous_node := Some (active_node u)\<rparr>))
                     else
                       (case split_edge s current_string_index index u key next_node of
                          Inl r \<Rightarrow> Inl r
                        | Inr u' \<Rightarrow> Inr (Next (follow_link index u'))))))"

definition extend_step :: "string \<Rightarrow> nat \<Rightarrow> int \<Rightarrow> ukkonen \<Rightarrow> raised + ukkonen flow" where
  \<comment> \<open>one pass through the body of \<open>while remainder > 0\<close> (lines 151-212)\<close>
  "extend_step s current_string_index index u0 =
     (let u = (if active_length u0 = 0 then u0\<lparr>active_edge := index\<rparr> else u0)
      in case py_getitem s (active_edge u) of
           Inl e \<Rightarrow> Inl (e, u_nodes u)
         | Inr key \<Rightarrow>
             (case map_of (edges (u_nodes u ! active_node u)) key of
                None \<Rightarrow>
                  Inr (Next (follow_link index (insert_leaf current_string_index index u key)))
              | Some next_node \<Rightarrow> on_edge s current_string_index index u key next_node))"

partial_function (option) extend_loop ::
  "string \<Rightarrow> nat \<Rightarrow> int \<Rightarrow> ukkonen \<Rightarrow> (raised + ukkonen) option" where
  \<comment> \<open>\<open>while remainder > 0\<close>; \<open>None\<close> is a loop that never ends\<close>
  "extend_loop s current_string_index index u =
     (if remainder u > 0
      then (case extend_step s current_string_index index u of
              Inl r \<Rightarrow> Some (Inl r)
            | Inr (Break u') \<Rightarrow> Some (Inr u')
            | Inr (Next u') \<Rightarrow> extend_loop s current_string_index index u')
      else Some (Inr u))"

declare extend_loop.simps [code]

primrec main_circle ::
  "string \<Rightarrow> nat \<Rightarrow> int list \<Rightarrow> ukkonen \<Rightarrow> (raised + ukkonen) option" where
  \<comment> \<open>\<open>for index in range(start_index, len(self.input_string))\<close>\<close>
  "main_circle s current_string_index [] u = Some (Inr u)"
| "main_circle s current_string_index (index # rest) u =
     (case extend_loop s current_string_index index
             (u\<lparr>previous_node := None, remainder := remainder u + 1\<rparr>) of
        None \<Rightarrow> None
      | Some (Inl r) \<Rightarrow> Some (Inl r)
      | Some (Inr u') \<Rightarrow> main_circle s current_string_index rest u')"

definition register_class :: "(string \<times> nat list) list \<Rightarrow> string \<Rightarrow> nat \<Rightarrow> (string \<times> nat list) list" where
  \<comment> \<open>lines 130-133: append to the class's list, or start it\<close>
  "register_class cls class_id current_string_index =
     (case map_of cls class_id of
        Some members \<Rightarrow> AList.update class_id (members @ [current_string_index]) cls
      | None \<Rightarrow> AList.update class_id [current_string_index] cls)"

definition set_leaf_ends :: "node list \<Rightarrow> nat list \<Rightarrow> int \<Rightarrow> node list" where
  \<comment> \<open>\<open>for leaf in new_leaves: leaf.end = len(self.input_string)\<close>\<close>
  "set_leaf_ends ns ls en = fold (\<lambda>leaf ns'. ns'[leaf := (ns' ! leaf)\<lparr>end_index := en\<rparr>]) ls ns"

text \<open>
  The buffer, the string count and the classes are updated before the main circle
  starts, and the nodes are updated in place while it runs. When an exception leaves
  the method, those updates stay; only the extension of \<open>self.leaves\<close> and the ends
  of the new leaves, which come last, are missing. The result \<open>Inl (e, t')\<close> is the
  exception \<open>e\<close> with the tree \<open>t'\<close> it leaves behind, \<open>Inr t'\<close> a normal return.
\<close>

definition append_string ::
  "suffix_tree \<Rightarrow> string \<Rightarrow> string option
     \<Rightarrow> (py_error \<times> suffix_tree + suffix_tree) option" where
  "append_string t input class_id =
     (let start_index = length (input_string t);
          current_string_index = strings_count t;
          input' = input @ CHR ''$'' # py_str current_string_index;
          s = input_string t @ input';
          cid = (case class_id of None \<Rightarrow> CHR ''$'' # py_str current_string_index
                 | Some c \<Rightarrow> c);
          cls = register_class (classes t) cid current_string_index;
          u = \<lparr>u_nodes = nodes t, active_node = root, active_edge = 0, active_length = 0,
               remainder = 0, previous_node = None, new_leaves = []\<rparr>
      in case main_circle s current_string_index
                (map int [start_index ..< length s]) u of
           None \<Rightarrow> None
         | Some (Inl r) \<Rightarrow>
             Some (Inl (fst r,
                        t\<lparr>nodes := snd r, input_string := s,
                          strings_count := strings_count t + 1, classes := cls\<rparr>))
         | Some (Inr u') \<Rightarrow>
             Some (Inr \<lparr>nodes = set_leaf_ends (u_nodes u') (new_leaves u') (int (length s)),
                        input_string = s,
                        strings_count = strings_count t + 1,
                        leaves = leaves t @ new_leaves u',
                        classes = cls\<rparr>))"

section \<open>find_common_substrings\<close>

definition is_successful :: "(string \<times> nat list) list \<Rightarrow> int \<Rightarrow> bool" where
  \<comment> \<open>every class has a member whose bit is set\<close>
  "is_successful cls bv =
     list_all (\<lambda>members. list_ex (\<lambda>representative. drop_bit representative bv mod 2 = 1) members)
       (map snd cls)"

definition set_add :: "nat list \<Rightarrow> nat \<Rightarrow> nat list" where
  \<comment> \<open>\<open>lowest_common_ancestors.add(node)\<close>; the list keeps the order of first insertion\<close>
  "set_add xs x = (if x \<in> set xs then xs else xs @ [x])"

partial_function (option) propagate_up ::
  "(string \<times> nat list) list \<Rightarrow> nat option \<Rightarrow> int \<Rightarrow> node list \<Rightarrow> nat list
     \<Rightarrow> (node list \<times> nat list) option" where
  \<comment> \<open>\<open>while node is not None\<close> (lines 230-241); \<open>None\<close> is a walk that never ends\<close>
  "propagate_up cls nd prev_bit_vector ns lca =
     (case nd of
        None \<Rightarrow> Some (ns, lca)
      | Some n \<Rightarrow>
          if prev_bit_vector \<noteq> 0 \<and> (bit_vector (ns ! n) OR prev_bit_vector) = bit_vector (ns ! n)
          then Some (ns, lca)
          else
            (let bv = bit_vector (ns ! n) OR prev_bit_vector;
                 ns' = ns[n := (ns ! n)\<lparr>bit_vector := bv\<rparr>];
                 lca' = (if is_successful cls bv then set_add lca n else lca)
             in propagate_up cls (parent (ns' ! n)) bv ns' lca'))"

declare propagate_up.simps [code]

primrec propagate_leaves ::
  "(string \<times> nat list) list \<Rightarrow> nat list \<Rightarrow> node list \<Rightarrow> nat list
     \<Rightarrow> (node list \<times> nat list) option" where
  \<comment> \<open>\<open>for leaf in self.leaves\<close> (line 227)\<close>
  "propagate_leaves cls [] ns lca = Some (ns, lca)"
| "propagate_leaves cls (leaf # rest) ns lca =
     (case propagate_up cls (Some leaf) 0 ns lca of
        None \<Rightarrow> None
      | Some (ns', lca') \<Rightarrow> propagate_leaves cls rest ns' lca')"

partial_function (option) path_label ::
  "string \<Rightarrow> node list \<Rightarrow> nat \<Rightarrow> string \<Rightarrow> string option" where
  \<comment> \<open>\<open>while node.parent is not None\<close> (lines 252-255)\<close>
  "path_label s ns nd common_substring =
     (case parent (ns ! nd) of
        None \<Rightarrow> Some common_substring
      | Some p \<Rightarrow>
          path_label s ns p (py_slice s (start (ns ! nd)) (end_index (ns ! nd)) @ common_substring))"

declare path_label.simps [code]

datatype visit = Subtree nat | Children int "nat list"

partial_function (option) find_leaves ::
  "string \<Rightarrow> node list \<Rightarrow> visit \<Rightarrow> (nat \<times> int) list option" where
  \<comment> \<open>\<open>find_leaves_in_subtree\<close>: \<open>Subtree r\<close> is the call on \<open>r\<close>, \<open>Children d cs\<close> is
      the rest of its loop over the children, each result shifted by \<open>d = r.end - r.start\<close>\<close>
  "find_leaves s ns v =
     (case v of
        Subtree r \<Rightarrow>
          (let substr_len = py_find (py_slice s (start (ns ! r)) (end_index (ns ! r))) CHR ''$''
           in if substr_len \<ge> 0
              then Some (map (\<lambda>i. (i, substr_len)) (extract_identifiers (bit_vector (ns ! r))))
              else find_leaves s ns
                     (Children (end_index (ns ! r) - start (ns ! r)) (map snd (edges (ns ! r)))))
      | Children d [] \<Rightarrow> Some []
      | Children d (child # rest) \<Rightarrow>
          Option.bind (find_leaves s ns (Subtree child)) (\<lambda>new_vals.
          Option.bind (find_leaves s ns (Children d rest)) (\<lambda>vals.
            Some (map (\<lambda>tple. (fst tple, snd tple + d)) new_vals @ vals))))"

declare find_leaves.simps [code]

definition find_leaves_in_subtree :: "suffix_tree \<Rightarrow> nat \<Rightarrow> (nat \<times> int) list option" where
  "find_leaves_in_subtree t r = find_leaves (input_string t) (nodes t) (Subtree r)"

definition get_string_lengths :: "suffix_tree \<Rightarrow> int list" where
  "get_string_lengths t =
     map (\<lambda>piece. int (length (py_strip_digits piece))) (py_split CHR ''$'' (input_string t))"

primrec place_positions ::
  "(nat \<times> int) list \<Rightarrow> int \<Rightarrow> int \<Rightarrow> int list \<Rightarrow> int list list \<Rightarrow> py_error + int list list" where
  \<comment> \<open>the loop of \<open>_format_positions\<close> (lines 351-353)\<close>
  "place_positions [] node_substr_len matching_len sizes return_value = Inr return_value"
| "place_positions (p # rest) node_substr_len matching_len sizes return_value =
     (if fst p < length sizes \<and> fst p < length return_value
      then place_positions rest node_substr_len matching_len sizes
             (return_value[fst p := return_value ! fst p @
                [sizes ! fst p - (snd p - node_substr_len) - matching_len]])
      else Inl IndexError)"

definition format_positions ::
  "suffix_tree \<Rightarrow> (nat \<times> int) list \<Rightarrow> int \<Rightarrow> int \<Rightarrow> int list \<Rightarrow> py_error + int list list" where
  "format_positions t positions node_substr_len matching_len sizes =
     place_positions positions node_substr_len matching_len sizes
       (replicate (strings_count t) [])"

type_synonym found = "(string \<times> int list list) list"

definition common_substring_of :: "suffix_tree \<Rightarrow> nat \<Rightarrow> string option" where
  \<comment> \<open>lines 250-257: the labels from the node up to the root, without the unique ending\<close>
  "common_substring_of t common_ancestor =
     map_option remove_unique_ending
       (path_label (input_string t) (nodes t) common_ancestor [])"

definition positions_of ::
  "suffix_tree \<Rightarrow> nat \<Rightarrow> string \<Rightarrow> (py_error + int list list) option" where
  \<comment> \<open>lines 260-266\<close>
  "positions_of t common_ancestor common_substring =
     (case find_leaves_in_subtree t common_ancestor of
        None \<Rightarrow> None
      | Some positions \<Rightarrow>
          Some (format_positions t positions
                  (end_index (nodes t ! common_ancestor) - start (nodes t ! common_ancestor))
                  (int (length common_substring)) (get_string_lengths t)))"

definition materialize ::
  "suffix_tree \<Rightarrow> int \<Rightarrow> nat \<Rightarrow> string list \<times> found \<Rightarrow> (py_error + string list \<times> found) option" where
  \<comment> \<open>the body of \<open>for common_ancestor in lowest_common_ancestors\<close> (lines 250-269),
      on the pair \<open>(common_substrings_set, return_value)\<close>\<close>
  "materialize t min_substr_len common_ancestor acc =
     (case common_substring_of t common_ancestor of
        None \<Rightarrow> None
      | Some common_substring \<Rightarrow>
          if int (length common_substring) \<ge> min_substr_len
               \<and> common_substring \<notin> set (fst acc)
          then
            (case positions_of t common_ancestor common_substring of
               None \<Rightarrow> None
             | Some (Inl e) \<Rightarrow> Some (Inl e)
             | Some (Inr positions) \<Rightarrow>
                 Some (Inr (fst acc @ [common_substring],
                            AList.update common_substring positions (snd acc))))
          else Some (Inr acc))"

primrec materialize_all ::
  "suffix_tree \<Rightarrow> int \<Rightarrow> nat list \<Rightarrow> string list \<times> found \<Rightarrow> (py_error + string list \<times> found) option" where
  "materialize_all t min_substr_len [] acc = Some (Inr acc)"
| "materialize_all t min_substr_len (common_ancestor # rest) acc =
     (case materialize t min_substr_len common_ancestor acc of
        None \<Rightarrow> None
      | Some (Inl e) \<Rightarrow> Some (Inl e)
      | Some (Inr acc') \<Rightarrow> materialize_all t min_substr_len rest acc')"

text \<open>
  \<open>lowest_common_ancestors\<close> is a Python set of node objects; the order in which the
  second loop iterates it is not fixed by the language. \<open>set_iter\<close> is that order: it
  is applied to the candidates in the order of their first insertion. The result is the
  tree after the call together with the returned dictionary or the raised error.
\<close>

definition find_common_substrings ::
  "(nat list \<Rightarrow> nat list) \<Rightarrow> suffix_tree \<Rightarrow> int \<Rightarrow> (suffix_tree \<times> (py_error + found)) option" where
  "find_common_substrings set_iter t min_substr_len =
     (case propagate_leaves (classes t) (leaves t) (nodes t) [] of
        None \<Rightarrow> None
      | Some (ns, lowest_common_ancestors) \<Rightarrow>
          (let t' = t\<lparr>nodes := ns\<rparr>
           in case materialize_all t' min_substr_len (set_iter lowest_common_ancestors) ([], []) of
                None \<Rightarrow> None
              | Some (Inl e) \<Rightarrow> Some (t', Inl e)
              | Some (Inr acc) \<Rightarrow> Some (t', Inr (snd acc))))"

definition insertion_order :: "nat list \<Rightarrow> nat list" where
  \<comment> \<open>one possible iteration order of the candidate set\<close>
  "insertion_order xs = xs"

section \<open>Sequences of calls\<close>

primrec append_all ::
  "suffix_tree \<Rightarrow> (string \<times> string option) list
     \<Rightarrow> (py_error \<times> suffix_tree + suffix_tree) option" where
  \<comment> \<open>one \<open>append_string(input, class_id)\<close> after the other; an exception ends the run\<close>
  "append_all t [] = Some (Inr t)"
| "append_all t (call # calls) =
     (case append_string t (fst call) (snd call) of
        None \<Rightarrow> None
      | Some (Inl r) \<Rightarrow> Some (Inl r)
      | Some (Inr t') \<Rightarrow> append_all t' calls)"

definition find_after ::
  "(nat list \<Rightarrow> nat list) \<Rightarrow> (string \<times> string option) list \<Rightarrow> int
     \<Rightarrow> (suffix_tree \<times> (py_error + found)) option" where
  \<comment> \<open>a fresh tree, the appends, then \<open>find_common_substrings\<close>; a run whose appends
      raise or do not end has no value\<close>
  "find_after set_iter calls min_substr_len =
     (case append_all new_tree calls of
        Some (Inr t) \<Rightarrow> find_common_substrings set_iter t min_substr_len
      | _ \<Rightarrow> None)"

definition returned :: "(suffix_tree \<times> (py_error + found)) option \<Rightarrow> found option" where
  \<comment> \<open>the dictionary a call returned, if it returned one\<close>
  "returned r = (case r of Some (t, Inr f) \<Rightarrow> Some f | _ \<Rightarrow> None)"

definition find_twice ::
  "(nat list \<Rightarrow> nat list) \<Rightarrow> (string \<times> string option) list \<Rightarrow> int
     \<Rightarrow> (suffix_tree \<times> (py_error + found)) option" where
  \<comment> \<open>as \<open>find_after\<close>, with a second call right after the first\<close>
  "find_twice set_iter calls min_substr_len =
     (case find_after set_iter calls min_substr_len of
        Some (t, r) \<Rightarrow> find_common_substrings set_iter t min_substr_len
      | None \<Rightarrow> None)"

definition round_trip :: "string list \<Rightarrow> found \<Rightarrow> bool" where
  \<comment> \<open>every reported offset, sliced out of its input string, gives the key back\<close>
  "round_trip inputs f =
     list_all (\<lambda>entry.
        list_all (\<lambda>i.
           list_all (\<lambda>offset.
              i < length inputs \<and>
              py_slice (inputs ! i) offset (offset + int (length (fst entry))) = fst entry)
             (snd entry ! i))
          [0 ..< length (snd entry)])
       f"

definition reported :: "found option \<Rightarrow> string \<Rightarrow> int list list option" where
  \<comment> \<open>\<open>result[key]\<close>, if the call returned a dictionary with that key\<close>
  "reported r key = (case r of None \<Rightarrow> None | Some f \<Rightarrow> map_of f key)"

definition left_behind :: "py_error \<times> suffix_tree + suffix_tree \<Rightarrow> suffix_tree" where
  \<comment> \<open>the tree after a call that ended, by a return or by an exception\<close>
  "left_behind r = (case r of Inl x \<Rightarrow> snd x | Inr t \<Rightarrow> t)"

definition succeeded :: "('e + 'a) option \<Rightarrow> bool" where
  \<comment> \<open>the call ended without an exception\<close>
  "succeeded r = (case r of Some (Inr x) \<Rightarrow> True | _ \<Rightarrow> False)"

definition scenario_A :: "(string \<times> string option) list" where
  "scenario_A = [(''xabxac'', None)]"

definition scenario_B :: "(string \<times> string option) list" where
  "scenario_B = [(''abcdef'', Some ''A''), (''xyzabc'', Some ''B'')]"

section \<open>Invariants of the construction\<close>

definition bv_view :: "node list \<Rightarrow> (int \<times> int) list" where
  "bv_view ns = map (\<lambda>n. (bit_vector n, end_index n)) ns"

definition marks :: "nat \<Rightarrow> int \<Rightarrow> (int \<times> int) list \<Rightarrow> nat list \<Rightarrow> bool" where
  "marks n0 b ext ls \<longleftrightarrow>
     set ls \<subseteq> {n0 ..< n0 + length ext} \<and>
     (\<forall>j<length ext. fst (ext ! j) = (if n0 + j \<in> set ls then b else 0))"

definition leaf_inv :: "node list \<Rightarrow> nat \<Rightarrow> int \<Rightarrow> ukkonen \<Rightarrow> bool" where
  "leaf_inv ns0 k c u \<longleftrightarrow>
     (\<exists>ext. bv_view (u_nodes u) = bv_view ns0 @ ext \<and>
            marks (length ns0) (push_bit k 1) ext (new_leaves u)) \<and>
     0 \<le> remainder u \<and> int (length (new_leaves u)) + remainder u = c"

definition terminated :: "nat \<Rightarrow> string \<Rightarrow> string" where
  "terminated i s = s @ CHR ''$'' # py_str i"

definition buffer :: "(string \<times> string option) list \<Rightarrow> string" where
  "buffer calls = concat (map (\<lambda>p. terminated (fst p) (fst (snd p))) (enumerate 0 calls))"

definition built_inv :: "(string \<times> string option) list \<Rightarrow> suffix_tree \<Rightarrow> bool" where
  "built_inv calls t \<longleftrightarrow>
     strings_count t = length calls \<and> input_string t = buffer calls \<and>
     (\<forall>l\<in>set (leaves t). l < length (nodes t) \<and>
        (\<exists>k<length calls. bit_vector (nodes t ! l) = push_bit k 1 \<and>
           end_index (nodes t ! l) = int (length (buffer (take (Suc k) calls))))) \<and>
     (\<forall>i<length (nodes t). i \<notin> set (leaves t) \<longrightarrow> bit_vector (nodes t ! i) = 0) \<and>
     length (leaves t) \<le> length (buffer calls)"

definition symbols_appended :: "(string \<times> string option) list \<Rightarrow> nat" where
  "symbols_appended calls =
     sum_list (map (\<lambda>p. length (fst (snd p)) + 1 + length (py_str (fst p))) (enumerate 0 calls))"

definition leaf_count :: "(string \<times> string option) list \<Rightarrow> nat option" where
  "leaf_count calls =
     (case append_all new_tree calls of Some (Inr t) \<Rightarrow> Some (length (leaves t)) | _ \<Rightarrow> None)"

definition tree_summary :: "('e + suffix_tree) option \<Rightarrow> (string \<times> nat \<times> nat list) option" where
  "tree_summary r =
     (case r of Some (Inr t) \<Rightarrow> Some (input_string t, strings_count t, leaves t) | _ \<Rightarrow> None)"

definition class_key :: "nat \<Rightarrow> string option \<Rightarrow> string" where
  "class_key i class_id = (case class_id of None \<Rightarrow> CHR ''$'' # py_str i | Some c \<Rightarrow> c)"

definition classes_after :: "(string \<times> string option) list \<Rightarrow> (string \<times> nat list) list option" where
  "classes_after calls =
     (case append_all new_tree calls of Some (Inr t) \<Rightarrow> Some (classes t) | _ \<Rightarrow> None)"

definition members :: "(string \<times> string option) list \<Rightarrow> string \<Rightarrow> nat list" where
  "members calls cid = filter (\<lambda>i. class_key i (snd (calls ! i)) = cid) [0 ..< length calls]"

definition digit_value :: "char \<Rightarrow> nat" where
  "digit_value c = of_char c - 48"

definition same_structure :: "node \<Rightarrow> node \<Rightarrow> bool" where
  "same_structure a b \<longleftrightarrow>
     start a = start b \<and> end_index a = end_index b \<and> edges a = edges b \<and>
     parent a = parent b \<and> suffix_link a = suffix_link b"

definition propagated :: "(string \<times> string option) list \<Rightarrow> (suffix_tree \<times> nat list) option" where
  "propagated calls =
     (case append_all new_tree calls of
        Some (Inr t) \<Rightarrow>
          (case propagate_leaves (classes t) (leaves t) (nodes t) [] of
             Some (ns, lca) \<Rightarrow> Some (t\<lparr>nodes := ns\<rparr>, lca)
           | None \<Rightarrow> None)
      | _ \<Rightarrow> None)"

definition entry_ok :: "suffix_tree \<Rightarrow> int \<Rightarrow> found \<Rightarrow> nat \<Rightarrow> bool" where
  "entry_ok t m tab c =
     (case common_substring_of t c of
        None \<Rightarrow> False
      | Some k \<Rightarrow>
          int (length k) < m \<or>
          (case map_of tab k of
             None \<Rightarrow> False
           | Some v \<Rightarrow> positions_of t c k = Some (Inr v)))"

definition table_ok :: "(string \<times> string option) list \<Rightarrow> int \<Rightarrow> found \<Rightarrow> bool" where
  "table_ok calls m tab =
     (case propagated calls of
        None \<Rightarrow> False
      | Some (t, lca) \<Rightarrow>
          list_all (entry_ok t m tab) lca \<and>
          list_all (\<lambda>e. m \<le> int (length (fst e)) \<and>
                         list_ex (\<lambda>c. common_substring_of t c = Some (fst e)) lca) tab)"

definition occurs_in :: "string \<Rightarrow> string \<Rightarrow> bool" where
  "occurs_in k s = list_ex (\<lambda>i. take (length k) (drop i s) = k) [0 ..< Suc (length s)]"

definition scenario_newline :: "(string \<times> string option) list" where
  "scenario_newline = [(''a1'' @ [CHR 0x0A] @ ''ba1'' @ [CHR 0x0A] @ ''c'', None)]"

section \<open>Parents, edges and subtrees\<close>

text \<open>
  The references between the nodes, read off the arena: the \<open>parent\<close> of every node,
  the dictionary \<open>edges\<close> of every node and its \<open>suffix_link\<close>. They are
  \<open>linked\<close> when the two directions agree: a node with the parent \<open>p\<close> is the
  value of an edge of \<open>p\<close>, the value of an edge of \<open>p\<close> has the parent \<open>p\<close>, no
  node is the value of two edges of one node, and every reference is a node of the arena.
\<close>

definition pv :: "node list \<Rightarrow> nat option list" where
  "pv ns = map parent ns"

definition ev :: "node list \<Rightarrow> (char \<rightharpoonup> nat) list" where
  "ev ns = map (\<lambda>n. map_of (edges n)) ns"

definition sv :: "node list \<Rightarrow> nat option list" where
  "sv ns = map suffix_link ns"

definition linkedv :: "nat option list \<Rightarrow> (char \<rightharpoonup> nat) list \<Rightarrow> nat option list \<Rightarrow> bool" where
  "linkedv P E S \<longleftrightarrow>
     length E = length P \<and> length S = length P \<and>
     (\<forall>c<length P. \<forall>p. P ! c = Some p \<longrightarrow> p < length P \<and> (\<exists>k. (E ! p) k = Some c)) \<and>
     (\<forall>p<length P. \<forall>k c. (E ! p) k = Some c \<longrightarrow> c < length P \<and> P ! c = Some p) \<and>
     (\<forall>p<length P. \<forall>k k' c. (E ! p) k = Some c \<longrightarrow> (E ! p) k' = Some c \<longrightarrow> k = k') \<and>
     (\<forall>i<length P. \<forall>l. S ! i = Some l \<longrightarrow> l < length P)"

definition linked :: "node list \<Rightarrow> bool" where
  "linked ns \<longleftrightarrow> linkedv (pv ns) (ev ns) (sv ns)"

text \<open>
  While \<open>append_string\<close> runs, the active node and the node that waits for its suffix
  link are nodes of the arena as well.
\<close>

definition link_inv :: "ukkonen \<Rightarrow> bool" where
  "link_inv u \<longleftrightarrow>
     linked (u_nodes u) \<and> active_node u < length (u_nodes u) \<and>
     (\<forall>p. previous_node u = Some p \<longrightarrow> p < length (u_nodes u))"

text \<open>
  \<open>child_of ns p c\<close>: \<open>c\<close> is in \<open>p.edges.values()\<close>. The subtree of a node is the
  node and everything below it.
\<close>

definition child_of :: "node list \<Rightarrow> nat \<Rightarrow> nat \<Rightarrow> bool" where
  "child_of ns p c \<longleftrightarrow> p < length ns \<and> c \<in> ran (map_of (edges (ns ! p)))"

definition in_subtree :: "node list \<Rightarrow> nat \<Rightarrow> nat \<Rightarrow> bool" where
  "in_subtree ns n l \<longleftrightarrow> rtranclp (child_of ns) n l"

text \<open>
  \<open>sub_bits a b\<close>: every bit of \<open>a\<close> is a bit of \<open>b\<close>, which is what the test
  \<open>(node.bit_vector | prev_bit_vector) == node.bit_vector\<close> of line 231 asks of
  \<open>prev_bit_vector\<close>.
\<close>

definition sub_bits :: "int \<Rightarrow> int \<Rightarrow> bool" where
  "sub_bits a b \<longleftrightarrow> (\<forall>k. bit a k \<longrightarrow> bit b k)"

text \<open>
  The state of the propagation loop (lines 227-241) against the tree \<open>ns0\<close> it started
  from, with the leaf list \<open>L\<close>. \<open>D\<close> holds the leaves whose walk is over and \<open>x\<close>
  is the node the current walk has just written, if any. Nothing but bit vectors has
  changed; every bit of a node comes from a leaf of its subtree; no bit was lost; and
  every node that is not a leaf, or is a leaf of \<open>D\<close>, has passed its bits to its parent,
  \<open>x\<close> apart.
\<close>

definition prop_inv :: "node list \<Rightarrow> nat list \<Rightarrow> nat set \<Rightarrow> nat option \<Rightarrow> node list \<Rightarrow> bool" where
  "prop_inv ns0 L D x ns \<longleftrightarrow>
     length ns = length ns0 \<and>
     (\<forall>i<length ns0. same_structure (ns ! i) (ns0 ! i)) \<and>
     (\<forall>n<length ns0. \<forall>k. bit (bit_vector (ns ! n)) k \<longrightarrow>
        (\<exists>l\<in>set L. in_subtree ns0 n l \<and> bit (bit_vector (ns0 ! l)) k)) \<and>
     (\<forall>n<length ns0. sub_bits (bit_vector (ns0 ! n)) (bit_vector (ns ! n))) \<and>
     (\<forall>c<length ns0. \<forall>p. parent (ns0 ! c) = Some p \<longrightarrow> x \<noteq> Some c \<longrightarrow>
        (c \<in> set L \<longrightarrow> c \<in> D) \<longrightarrow> sub_bits (bit_vector (ns ! c)) (bit_vector (ns ! p)))"

text \<open>
  The string of a leaf. A leaf made while string \<open>k\<close> was appended ends where the
  ending \<open>$k\<close> of that string ends (line 216).
\<close>

definition string_of_leaf :: "(string \<times> string option) list \<Rightarrow> node \<Rightarrow> nat \<Rightarrow> bool" where
  "string_of_leaf calls nd k \<longleftrightarrow>
     k < length calls \<and> end_index nd = int (length (buffer (take (Suc k) calls)))"

text \<open>
  The bit vector of node \<open>n\<close> after the appends and one call of
  \<open>find_common_substrings\<close>, and the tree of eleven strings \<open>a\<close>.
\<close>

definition vector_after :: "(string \<times> string option) list \<Rightarrow> int \<Rightarrow> nat \<Rightarrow> int option" where
  "vector_after calls m n =
     (case find_after insertion_order calls m of
        Some (t', r) \<Rightarrow> if n < length (nodes t') then Some (bit_vector (nodes t' ! n)) else None
      | None \<Rightarrow> None)"

definition eleven :: "(string \<times> string option) list" where
  "eleven = replicate 11 (''a'', None)"

section \<open>What append_string keeps\<close>

lemma bv_view_update_same:
  "bit_vector n = bit_vector (ns ! i) \<Longrightarrow> end_index n = end_index (ns ! i) \<Longrightarrow>
   bv_view (ns[i := n]) = bv_view ns"
proof (rule nth_equalityI)
  show "length (bv_view (ns[i := n])) = length (bv_view ns)" by (simp add: bv_view_def)
next
  fix j assume "j < length (bv_view (ns[i := n]))"
  then have j: "j < length ns" by (simp add: bv_view_def)
  assume a: "bit_vector n = bit_vector (ns ! i)" "end_index n = end_index (ns ! i)"
  show "bv_view (ns[i := n]) ! j = bv_view ns ! j"
    using j a by (cases "j = i") (simp_all add: bv_view_def)
qed

lemma bv_view_length: "length (bv_view ns) = length ns"
  by (simp add: bv_view_def)

lemma bv_view_add_child:
  "bv_view (fst (add_child ns p key st en)) = bv_view ns @ [(0, en)]"
proof -
  let ?ns1 = "ns @ [(new_node st en)\<lparr>parent := Some p\<rparr>]"
  have "bv_view (?ns1[p := (?ns1 ! p)\<lparr>edges := AList.update key (length ns) (edges (?ns1 ! p))\<rparr>])
        = bv_view ?ns1"
    by (rule bv_view_update_same) simp_all
  then show ?thesis
    by (simp add: add_child_def Let_def bv_view_def new_node_def)
qed

lemma snd_add_child: "snd (add_child ns p key st en) = length ns"
  by (simp add: add_child_def Let_def)

lemma length_add_child: "length (fst (add_child ns p key st en)) = Suc (length ns)"
  by (simp add: add_child_def Let_def)

lemma bv_view_new_leaf:
  "bv_view (fst (new_leaf ns p key index k)) = bv_view ns @ [(push_bit k 1, END_OF_STRING)]"
proof -
  obtain ns1 leaf where ac: "add_child ns p key index END_OF_STRING = (ns1, leaf)"
    by (cases "add_child ns p key index END_OF_STRING")
  have v: "bv_view ns1 = bv_view ns @ [(0, END_OF_STRING)]" and l: "leaf = length ns"
    using bv_view_add_child [of ns p key index END_OF_STRING] snd_add_child [of ns p key index END_OF_STRING]
    by (simp_all add: ac)
  have len: "length ns1 = Suc (length ns)"
    using length_add_child [of ns p key index END_OF_STRING] by (simp add: ac)
  have "bv_view (ns1[leaf := (ns1 ! leaf)\<lparr>bit_vector := push_bit k 1\<rparr>])
        = (bv_view ns1)[leaf := (push_bit k 1, end_index (ns1 ! leaf))]"
    by (simp add: bv_view_def map_update)
  moreover have "end_index (ns1 ! leaf) = END_OF_STRING"
  proof -
    have "bv_view ns1 ! leaf = (0, END_OF_STRING)"
      using v l by (simp add: bv_view_length [symmetric])
    moreover have "leaf < length ns1" using l len by simp
    ultimately show ?thesis by (simp add: bv_view_def)
  qed
  ultimately show ?thesis
    using v l by (simp add: new_leaf_def ac list_update_append bv_view_length)
qed

lemma snd_new_leaf: "snd (new_leaf ns p key index k) = length ns"
  by (simp add: new_leaf_def add_child_def Let_def)

lemma bv_view_set_suffix_link: "bv_view (set_suffix_link ns prev tgt) = bv_view ns"
  by (cases prev) (simp_all add: set_suffix_link_def bv_view_update_same)

lemma bv_view_add_existing: "bv_view (add_exisiting_node_as_child ns p key nd) = bv_view ns"
  by (simp add: add_exisiting_node_as_child_def Let_def bv_view_update_same)

lemma insert_leaf_view:
  "bv_view (u_nodes (insert_leaf k index u key)) = bv_view (u_nodes u) @ [(push_bit k 1, END_OF_STRING)]
   \<and> new_leaves (insert_leaf k index u key) = new_leaves u @ [length (u_nodes u)]
   \<and> remainder (insert_leaf k index u key) = remainder u"
  using bv_view_new_leaf [of "u_nodes u" "active_node u" key index k]
        snd_new_leaf [of "u_nodes u" "active_node u" key index k]
  by (cases "new_leaf (u_nodes u) (active_node u) key index k")
     (simp add: insert_leaf_def bv_view_set_suffix_link)

lemma split_edge_view:
  assumes "split_edge s k index u key next_node = Inr u'"
  shows "\<exists>en. bv_view (u_nodes u') = bv_view (u_nodes u) @ [(0, en), (push_bit k 1, END_OF_STRING)]
   \<and> new_leaves u' = new_leaves u @ [Suc (length (u_nodes u))]
   \<and> remainder u' = remainder u"
proof -
  let ?st = "start (u_nodes u ! next_node)"
  obtain ns1 sp where ac: "add_child (u_nodes u) (active_node u) key ?st (?st + active_length u) = (ns1, sp)"
    by (cases "add_child (u_nodes u) (active_node u) key ?st (?st + active_length u)")
  have v1: "bv_view ns1 = bv_view (u_nodes u) @ [(0, ?st + active_length u)]"
    using bv_view_add_child [of "u_nodes u" "active_node u" key ?st "?st + active_length u"] by (simp add: ac)
  let ?ns2 = "ns1[next_node := (ns1 ! next_node)\<lparr>start := start (ns1 ! next_node) + active_length u\<rparr>]"
  have v2: "bv_view ?ns2 = bv_view ns1" by (simp add: bv_view_update_same)
  from assms obtain c3 where c3: "py_getitem s (start (?ns2 ! next_node)) = Inr c3"
    by (cases "py_getitem s (start (?ns2 ! next_node))") (simp_all add: split_edge_def ac Let_def)
  from assms obtain c2 where c2: "py_getitem s index = Inr c2"
    by (cases "py_getitem s index") (simp_all add: split_edge_def ac Let_def c3)
  obtain ns4 leaf where
    nl: "new_leaf (add_exisiting_node_as_child ?ns2 sp c3 next_node) sp c2 index k = (ns4, leaf)"
    by (cases "new_leaf (add_exisiting_node_as_child ?ns2 sp c3 next_node) sp c2 index k")
  have u': "u' = u\<lparr>u_nodes := set_suffix_link ns4 (previous_node u) sp,
                    new_leaves := new_leaves u @ [leaf], previous_node := Some sp\<rparr>"
    using assms by (simp add: split_edge_def ac Let_def c3 c2 nl)
  have v4: "bv_view ns4 = bv_view ?ns2 @ [(push_bit k 1, END_OF_STRING)]"
    using bv_view_new_leaf [of "add_exisiting_node_as_child ?ns2 sp c3 next_node" sp c2 index k]
    by (simp add: nl bv_view_add_existing)
  have l: "leaf = length (add_exisiting_node_as_child ?ns2 sp c3 next_node)"
    using snd_new_leaf [of "add_exisiting_node_as_child ?ns2 sp c3 next_node" sp c2 index k]
    by (simp add: nl)
  have "length (add_exisiting_node_as_child ?ns2 sp c3 next_node) = length (bv_view ?ns2)"
    by (metis bv_view_add_existing bv_view_length)
  then have "leaf = Suc (length (u_nodes u))"
    using l v2 v1 by (simp add: bv_view_length)
  then show ?thesis
    using v4 v2 v1 by (simp add: u' bv_view_set_suffix_link)
qed

lemma extend_step_cases:
  assumes step: "extend_step s k index u0 = Inr fl"
    and u: "u = (if active_length u0 = 0 then u0\<lparr>active_edge := index\<rparr> else u0)"
  obtains (leaf) key where
      "py_getitem s (active_edge u) = Inr key"
      "map_of (edges (u_nodes u ! active_node u)) key = None"
      "fl = Next (follow_link index (insert_leaf k index u key))"
  | (walk) key nn where
      "py_getitem s (active_edge u) = Inr key"
      "map_of (edges (u_nodes u ! active_node u)) key = Some nn"
      "active_length u \<ge> get_edge_length (u_nodes u ! nn) index"
      "fl = Next (u\<lparr>active_edge := active_edge u + get_edge_length (u_nodes u ! nn) index,
                     active_length := active_length u - get_edge_length (u_nodes u ! nn) index,
                     active_node := nn\<rparr>)"
  | (rule3) key nn where
      "py_getitem s (active_edge u) = Inr key"
      "map_of (edges (u_nodes u ! active_node u)) key = Some nn"
      "fl = Break (u\<lparr>active_length := active_length u + 1,
                      u_nodes := set_suffix_link (u_nodes u) (previous_node u) (active_node u),
                      previous_node := Some (active_node u)\<rparr>)"
  | (split) key nn c1 c2 u' where
      "py_getitem s (active_edge u) = Inr key"
      "map_of (edges (u_nodes u ! active_node u)) key = Some nn"
      "py_getitem s (start (u_nodes u ! nn) + active_length u) = Inr c1"
      "py_getitem s index = Inr c2"
      "c1 \<noteq> c2"
      "split_edge s k index u key nn = Inr u'"
      "fl = Next (follow_link index u')"
proof -
  from step u obtain key where key: "py_getitem s (active_edge u) = Inr key"
    by (cases "py_getitem s (active_edge u)") (simp_all add: extend_step_def Let_def)
  show thesis
  proof (cases "map_of (edges (u_nodes u ! active_node u)) key")
    case None
    with step u key have "fl = Next (follow_link index (insert_leaf k index u key))"
      by (simp add: extend_step_def Let_def)
    with key None show thesis by (rule leaf)
  next
    case (Some nn)
    with step u key have oe: "on_edge s k index u key nn = Inr fl"
      by (simp add: extend_step_def Let_def)
    show thesis
    proof (cases "active_length u \<ge> get_edge_length (u_nodes u ! nn) index")
      case True
      with oe have "fl = Next (u\<lparr>active_edge := active_edge u + get_edge_length (u_nodes u ! nn) index,
                     active_length := active_length u - get_edge_length (u_nodes u ! nn) index,
                     active_node := nn\<rparr>)"
        by (simp add: on_edge_def Let_def)
      with key Some True show thesis by (rule walk)
    next
      case False
      from oe False obtain c1 where c1: "py_getitem s (start (u_nodes u ! nn) + active_length u) = Inr c1"
        by (cases "py_getitem s (start (u_nodes u ! nn) + active_length u)")
           (simp_all add: on_edge_def Let_def)
      from oe False c1 obtain c2 where c2: "py_getitem s index = Inr c2"
        by (cases "py_getitem s index") (simp_all add: on_edge_def Let_def)
      show thesis
      proof (cases "c1 = c2")
        case True
        with oe False c1 c2 have "fl = Break (u\<lparr>active_length := active_length u + 1,
                      u_nodes := set_suffix_link (u_nodes u) (previous_node u) (active_node u),
                      previous_node := Some (active_node u)\<rparr>)"
          by (simp add: on_edge_def Let_def)
        with key Some show thesis by (rule rule3)
      next
        case ne: False
        from oe False c1 c2 ne obtain u' where u': "split_edge s k index u key nn = Inr u'"
          by (cases "split_edge s k index u key nn") (simp_all add: on_edge_def Let_def)
        with oe False c1 c2 ne have "fl = Next (follow_link index u')"
          by (simp add: on_edge_def Let_def)
        with key Some c1 c2 ne u' show thesis by (rule split)
      qed
    qed
  qed
qed

lemma follow_link_fields:
  "u_nodes (follow_link index u) = u_nodes u"
  "new_leaves (follow_link index u) = new_leaves u"
  "remainder (follow_link index u) = remainder u - 1"
  by (simp_all add: follow_link_def Let_def)

lemma normalized_fields:
  assumes "u = (if active_length u0 = 0 then u0\<lparr>active_edge := index\<rparr> else u0)"
  shows "u_nodes u = u_nodes u0" "new_leaves u = new_leaves u0" "remainder u = remainder u0"
    "active_node u = active_node u0" "previous_node u = previous_node u0"
  using assms by simp_all

lemma marks_leaf: "marks n0 b ext ls \<Longrightarrow> marks n0 b (ext @ [(b, e)]) (ls @ [n0 + length ext])"
  unfolding marks_def by (auto simp: nth_append)

lemma marks_inner: "marks n0 b ext ls \<Longrightarrow> marks n0 b (ext @ [(0, e)]) ls"
  unfolding marks_def by (auto simp: nth_append)

lemma view_length: "bv_view ns = bv_view ns0 @ ext \<Longrightarrow> length ns = length ns0 + length ext"
  by (metis bv_view_length length_append)

lemma leaf_inv_step:
  assumes step: "extend_step s k index u0 = Inr fl"
    and inv: "leaf_inv ns0 k c u0" and pos: "remainder u0 > 0"
    and fl: "fl = Next u' \<or> fl = Break u'"
  shows "leaf_inv ns0 k c u'"
proof -
  define u where "u = (if active_length u0 = 0 then u0\<lparr>active_edge := index\<rparr> else u0)"
  have f: "u_nodes u = u_nodes u0" "new_leaves u = new_leaves u0" "remainder u = remainder u0"
    by (simp_all add: u_def)
  from inv obtain ext where v: "bv_view (u_nodes u) = bv_view ns0 @ ext"
    and m: "marks (length ns0) (push_bit k 1) ext (new_leaves u)"
    and r: "0 \<le> remainder u" "int (length (new_leaves u)) + remainder u = c"
    by (auto simp: leaf_inv_def f)
  have len: "length (u_nodes u) = length ns0 + length ext" using v by (rule view_length)
  from step u_def show ?thesis
  proof (cases rule: extend_step_cases)
    case (leaf key)
    let ?w = "insert_leaf k index u key"
    have "bv_view (u_nodes ?w) = bv_view ns0 @ (ext @ [(push_bit k 1, END_OF_STRING)])"
      and "new_leaves ?w = new_leaves u @ [length ns0 + length ext]"
      and "remainder ?w = remainder u"
      using insert_leaf_view [of k index u key] v len by simp_all
    moreover have "u' = follow_link index ?w" using leaf fl by simp
    ultimately show ?thesis
      using marks_leaf [OF m, of END_OF_STRING] r pos f
      by (auto simp: leaf_inv_def follow_link_fields)
  next
    case (walk key nn)
    then have "u' = u\<lparr>active_edge := active_edge u + get_edge_length (u_nodes u ! nn) index,
                     active_length := active_length u - get_edge_length (u_nodes u ! nn) index,
                     active_node := nn\<rparr>" using fl by simp
    then show ?thesis using v m r f by (auto simp: leaf_inv_def bv_view_set_suffix_link)
  next
    case (rule3 key nn)
    then have "u' = u\<lparr>active_length := active_length u + 1,
                      u_nodes := set_suffix_link (u_nodes u) (previous_node u) (active_node u),
                      previous_node := Some (active_node u)\<rparr>" using fl by simp
    then show ?thesis using v m r f by (auto simp: leaf_inv_def bv_view_set_suffix_link)
  next
    case (split key nn c1 c2 w)
    from split_edge_view [OF split(6)] obtain en where
      "bv_view (u_nodes w) = bv_view ns0 @ ((ext @ [(0, en)]) @ [(push_bit k 1, END_OF_STRING)])"
      and "new_leaves w = new_leaves u @ [length ns0 + length (ext @ [(0, en)])]"
      and "remainder w = remainder u"
      using v len by auto
    moreover have "u' = follow_link index w" using split fl by simp
    ultimately show ?thesis
      using marks_leaf [OF marks_inner [OF m, of en], of END_OF_STRING] r pos f
      by (auto simp: leaf_inv_def follow_link_fields)
  qed
qed

lemma extend_loop_invariant:
  assumes run: "extend_loop s k index u = Some (Inr u')"
    and init: "I u"
    and nxt: "\<And>v w. I v \<Longrightarrow> remainder v > 0 \<Longrightarrow> extend_step s k index v = Inr (Next w) \<Longrightarrow> I w"
    and brk: "\<And>v w. I v \<Longrightarrow> remainder v > 0 \<Longrightarrow> extend_step s k index v = Inr (Break w) \<Longrightarrow> I w"
  shows "I u'"
proof -
  define P where "P = (\<lambda>s' k' index' v (r :: raised + ukkonen). s' = s \<longrightarrow> k' = k \<longrightarrow> index' = index \<longrightarrow> I v \<longrightarrow> (\<forall>w. r = Inr w \<longrightarrow> I w))"
  have "P s k index u (Inr u')"
  proof (rule extend_loop.raw_induct [where P = P, OF _ run])
    fix loop s' k' index' v r
    assume IH: "\<And>s' k' index' v r. loop s' k' index' v = Some r \<Longrightarrow> P s' k' index' v r"
      and unf: "(if 0 < remainder v
             then case extend_step s' k' index' v of
                    Inl e \<Rightarrow> Some (Inl e)
                  | Inr (Next u') \<Rightarrow> loop s' k' index' u'
                  | Inr (Break u') \<Rightarrow> Some (Inr u')
             else Some (Inr v)) = Some r"
    show "P s' k' index' v r"
      unfolding P_def
    proof (intro impI allI)
      fix w
      assume eq: "s' = s" "k' = k" "index' = index" and v: "I v" and r: "r = Inr w"
      show "I w"
      proof (cases "0 < remainder v")
        case False
        with unf r v show ?thesis by simp
      next
        case True
        show ?thesis
        proof (cases "extend_step s k index v")
          case (Inl e)
          with unf True r eq show ?thesis by simp
        next
          case (Inr fl)
          show ?thesis
          proof (cases fl)
            case (Next x)
            with unf True Inr eq have "loop s k index x = Some r" by simp
            moreover have "I x" using v True Inr Next by (auto intro: nxt)
            ultimately show ?thesis using IH [of s k index x r] r by (simp add: P_def)
          next
            case (Break x)
            with unf True Inr eq r have "x = w" by simp
            then show ?thesis using v True Inr Break by (auto intro: brk)
          qed
        qed
      qed
    qed
  qed
  then show ?thesis using init by (simp add: P_def)
qed

lemma main_circle_invariant:
  assumes "main_circle s k idxs u = Some (Inr u')"
    and "I (length idxs) u"
    and bump: "\<And>n v. I (Suc n) v \<Longrightarrow> I n (v\<lparr>previous_node := None, remainder := remainder v + 1\<rparr>)"
    and nxt: "\<And>n index v w. I n v \<Longrightarrow> remainder v > 0 \<Longrightarrow> extend_step s k index v = Inr (Next w) \<Longrightarrow> I n w"
    and brk: "\<And>n index v w. I n v \<Longrightarrow> remainder v > 0 \<Longrightarrow> extend_step s k index v = Inr (Break w) \<Longrightarrow> I n w"
  shows "I 0 u'"
  using assms(1,2)
proof (induction idxs arbitrary: u)
  case Nil
  then show ?case by simp
next
  case (Cons index rest)
  let ?v = "u\<lparr>previous_node := None, remainder := remainder u + 1\<rparr>"
  from Cons.prems(1) obtain w where w: "extend_loop s k index ?v = Some (Inr w)"
    and rest: "main_circle s k rest w = Some (Inr u')"
    by (cases "extend_loop s k index ?v"; cases "the (extend_loop s k index ?v)") simp_all
  have "I (length rest) ?v" using Cons.prems(2) by (simp add: bump)
  with w have "I (length rest) w"
    by (rule extend_loop_invariant) (erule (2) nxt, erule (2) brk)
  with rest show ?case by (rule Cons.IH)
qed

lemma set_leaf_ends_length: "length (set_leaf_ends ns ls en) = length ns"
  unfolding set_leaf_ends_def by (induction ls arbitrary: ns) simp_all

lemma set_leaf_ends_nth:
  "i < length ns \<Longrightarrow>
   set_leaf_ends ns ls en ! i = (if i \<in> set ls then (ns ! i)\<lparr>end_index := en\<rparr> else ns ! i)"
  unfolding set_leaf_ends_def
proof (induction ls arbitrary: ns)
  case Nil
  then show ?case by simp
next
  case (Cons l ls)
  let ?ns = "ns[l := (ns ! l)\<lparr>end_index := en\<rparr>]"
  have "i < length ?ns" using Cons.prems by simp
  from Cons.IH [OF this] show ?case
    using Cons.prems by (cases "i = l") simp_all
qed

lemma buffer_snoc: "buffer (calls @ [c]) = buffer calls @ terminated (length calls) (fst c)"
  by (simp add: buffer_def enumerate_append_eq)

lemma append_string_unfold:
  assumes "append_string t input class_id = Some (Inr t')"
  obtains u' where
    "main_circle (input_string t @ terminated (strings_count t) input) (strings_count t)
       (map int [length (input_string t) ..< length (input_string t @ terminated (strings_count t) input)])
       \<lparr>u_nodes = nodes t, active_node = root, active_edge = 0, active_length = 0,
        remainder = 0, previous_node = None, new_leaves = []\<rparr> = Some (Inr u')"
    "nodes t' = set_leaf_ends (u_nodes u') (new_leaves u')
                  (int (length (input_string t @ terminated (strings_count t) input)))"
    "input_string t' = input_string t @ terminated (strings_count t) input"
    "strings_count t' = strings_count t + 1"
    "leaves t' = leaves t @ new_leaves u'"
    "classes t' = register_class (classes t)
        (case class_id of None \<Rightarrow> CHR ''$'' # py_str (strings_count t) | Some c \<Rightarrow> c)
        (strings_count t)"
proof -
  let ?s = "input_string t @ terminated (strings_count t) input"
  let ?mc = "main_circle ?s (strings_count t) (map int [length (input_string t) ..< length ?s])
       \<lparr>u_nodes = nodes t, active_node = root, active_edge = 0, active_length = 0,
        remainder = 0, previous_node = None, new_leaves = []\<rparr>"
  from assms obtain u' where mc: "?mc = Some (Inr u')"
    by (cases ?mc; cases "the ?mc") (simp_all add: append_string_def Let_def terminated_def)
  with assms have "t' = \<lparr>nodes = set_leaf_ends (u_nodes u') (new_leaves u') (int (length ?s)),
                        input_string = ?s,
                        strings_count = strings_count t + 1,
                        leaves = leaves t @ new_leaves u',
                        classes = register_class (classes t)
        (case class_id of None \<Rightarrow> CHR ''$'' # py_str (strings_count t) | Some c \<Rightarrow> c)
        (strings_count t)\<rparr>"
    by (simp add: append_string_def Let_def terminated_def)
  with mc show thesis by (intro that) simp_all
qed

lemma view_old:
  assumes "bv_view ns = bv_view ns0 @ ext" and "i < length ns0"
  shows "bit_vector (ns ! i) = bit_vector (ns0 ! i)" "end_index (ns ! i) = end_index (ns0 ! i)"
proof -
  have "i < length ns" using view_length [OF assms(1)] assms(2) by simp
  then have "bv_view ns ! i = (bit_vector (ns ! i), end_index (ns ! i))"
    by (simp add: bv_view_def)
  moreover have "bv_view ns ! i = (bit_vector (ns0 ! i), end_index (ns0 ! i))"
    using assms by (simp add: nth_append bv_view_length) (simp add: bv_view_def)
  ultimately show "bit_vector (ns ! i) = bit_vector (ns0 ! i)" "end_index (ns ! i) = end_index (ns0 ! i)"
    by simp_all
qed

lemma view_new:
  assumes "bv_view ns = bv_view ns0 @ ext" and "j < length ext"
  shows "bit_vector (ns ! (length ns0 + j)) = fst (ext ! j)"
proof -
  have "length ns0 + j < length ns" using view_length [OF assms(1)] assms(2) by simp
  then have "bv_view ns ! (length ns0 + j) = (bit_vector (ns ! (length ns0 + j)), end_index (ns ! (length ns0 + j)))"
    by (simp add: bv_view_def)
  moreover have "bv_view ns ! (length ns0 + j) = ext ! j"
    using assms by (simp add: nth_append bv_view_length)
  ultimately show ?thesis by simp
qed

lemma leaf_inv_bump:
  assumes "leaf_inv ns0 k c v"
  shows "leaf_inv ns0 k (c + 1) (v\<lparr>previous_node := None, remainder := remainder v + 1\<rparr>)"
proof -
  from assms obtain ext where "bv_view (u_nodes v) = bv_view ns0 @ ext"
    "marks (length ns0) (push_bit k 1) ext (new_leaves v)"
    and r: "0 \<le> remainder v" "int (length (new_leaves v)) + remainder v = c"
    unfolding leaf_inv_def by blast
  then have "\<exists>ext. bv_view (u_nodes v) = bv_view ns0 @ ext \<and>
            marks (length ns0) (push_bit k 1) ext (new_leaves v)" by blast
  with r show ?thesis unfolding leaf_inv_def by simp
qed

lemma leaf_inv_init:
  "leaf_inv ns0 k 0 \<lparr>u_nodes = ns0, active_node = root, active_edge = 0, active_length = 0,
        remainder = 0, previous_node = None, new_leaves = []\<rparr>"
proof -
  have "bv_view ns0 = bv_view ns0 @ [] \<and> marks (length ns0) (push_bit k 1) [] []"
    by (simp add: marks_def)
  then show ?thesis unfolding leaf_inv_def by (simp del: append_Nil2)
qed

lemma leaf_inv_run:
  assumes mc: "main_circle s k idxs \<lparr>u_nodes = ns0, active_node = root, active_edge = 0, active_length = 0,
        remainder = 0, previous_node = None, new_leaves = []\<rparr> = Some (Inr u')"
  shows "leaf_inv ns0 k (int (length idxs)) u'"
proof -
  define I where "I = (\<lambda>n u. leaf_inv ns0 k (int (length idxs) - int n) u)"
  have "I 0 u'"
  proof (rule main_circle_invariant [where I = I, OF mc])
    show "I (length idxs) \<lparr>u_nodes = ns0, active_node = root, active_edge = 0, active_length = 0,
        remainder = 0, previous_node = None, new_leaves = []\<rparr>"
      using leaf_inv_init [of ns0 k] by (simp add: I_def)
  next
    fix n v assume "I (Suc n) v"
    then have "leaf_inv ns0 k (int (length idxs) - int (Suc n)) v" by (simp add: I_def)
    from leaf_inv_bump [OF this]
    show "I n (v\<lparr>previous_node := None, remainder := remainder v + 1\<rparr>)"
      by (simp add: I_def)
  next
    fix n index v w
    assume a: "I n v" "0 < remainder v" "extend_step s k index v = Inr (Next w)"
    from a(1) have "leaf_inv ns0 k (int (length idxs) - int n) v" by (simp add: I_def)
    from leaf_inv_step [OF a(3) this a(2), of w] show "I n w" by (simp add: I_def)
  next
    fix n index v w
    assume a: "I n v" "0 < remainder v" "extend_step s k index v = Inr (Break w)"
    from a(1) have "leaf_inv ns0 k (int (length idxs) - int n) v" by (simp add: I_def)
    from leaf_inv_step [OF a(3) this a(2), of w] show "I n w" by (simp add: I_def)
  qed
  then show ?thesis by (simp add: I_def)
qed

lemma built_inv_append:
  assumes inv: "built_inv calls t" and app: "append_string t input class_id = Some (Inr t')"
  shows "built_inv (calls @ [(input, class_id)]) t'"
proof -
  let ?k = "length calls"
  let ?s = "buffer calls @ terminated ?k input"
  let ?ns0 = "nodes t"
  have sc: "strings_count t = ?k" and buf: "input_string t = buffer calls"
    using inv by (simp_all add: built_inv_def)
  from app obtain u' where
    mc: "main_circle ?s ?k (map int [length (buffer calls) ..< length ?s])
       \<lparr>u_nodes = ?ns0, active_node = root, active_edge = 0, active_length = 0,
        remainder = 0, previous_node = None, new_leaves = []\<rparr> = Some (Inr u')"
    and ns': "nodes t' = set_leaf_ends (u_nodes u') (new_leaves u') (int (length ?s))"
    and s': "input_string t' = ?s"
    and c': "strings_count t' = ?k + 1"
    and l': "leaves t' = leaves t @ new_leaves u'"
    by (rule append_string_unfold) (simp_all add: sc buf)
  have "leaf_inv ?ns0 ?k (int (length (terminated ?k input))) u'"
    using leaf_inv_run [OF mc] by simp
  then obtain ext where v: "bv_view (u_nodes u') = bv_view ?ns0 @ ext"
    and m: "marks (length ?ns0) (push_bit ?k 1) ext (new_leaves u')"
    and cnt: "length (new_leaves u') \<le> length (terminated ?k input)"
    by (auto simp: leaf_inv_def)
  have len: "length (u_nodes u') = length ?ns0 + length ext" using v by (rule view_length)
  have len': "length (nodes t') = length ?ns0 + length ext" by (simp add: ns' set_leaf_ends_length len)
  have new_range: "\<And>l. l \<in> set (new_leaves u') \<Longrightarrow> length ?ns0 \<le> l \<and> l < length ?ns0 + length ext"
    using m by (auto simp: marks_def)
  have bs: "buffer (calls @ [(input, class_id)]) = ?s" by (simp add: buffer_snoc)
  have A: "l < length (nodes t') \<and>
        (\<exists>k<length (calls @ [(input, class_id)]). bit_vector (nodes t' ! l) = push_bit k 1 \<and>
           end_index (nodes t' ! l) = int (length (buffer (take (Suc k) (calls @ [(input, class_id)])))))"
    if "l \<in> set (leaves t')" for l
  proof (cases "l \<in> set (new_leaves u')")
    case True
    then have r: "length ?ns0 \<le> l" "l < length ?ns0 + length ext" using new_range by auto
    from r(1) obtain j where j0: "l = length ?ns0 + j" using le_Suc_ex by blast
    with r(2) have j: "l = length ?ns0 + j" "j < length ext" by simp_all
    have "fst (ext ! j) = push_bit ?k 1" using m j True by (simp add: marks_def)
    then have "bit_vector (u_nodes u' ! l) = push_bit ?k 1" using view_new [OF v j(2)] j by simp
    moreover have "nodes t' ! l = (u_nodes u' ! l)\<lparr>end_index := int (length ?s)\<rparr>"
      using True r len by (simp add: ns' set_leaf_ends_nth)
    ultimately have "bit_vector (nodes t' ! l) = push_bit ?k 1 \<and>
        end_index (nodes t' ! l) = int (length (buffer (take (Suc ?k) (calls @ [(input, class_id)]))))"
      by (simp add: bs)
    then show ?thesis using r len' by (intro conjI exI [of _ ?k]) simp_all
  next
    case False
    with that have old: "l \<in> set (leaves t)" by (simp add: l')
    with inv obtain k where k: "l < length ?ns0" "k < ?k" "bit_vector (?ns0 ! l) = push_bit k 1"
      "end_index (?ns0 ! l) = int (length (buffer (take (Suc k) calls)))"
      by (auto simp: built_inv_def)
    have "nodes t' ! l = u_nodes u' ! l" using False k(1) len by (simp add: ns' set_leaf_ends_nth)
    then have "bit_vector (nodes t' ! l) = push_bit k 1"
      "end_index (nodes t' ! l) = int (length (buffer (take (Suc k) calls)))"
      using view_old [OF v k(1)] k by simp_all
    then show ?thesis using k len' by (intro conjI exI [of _ k]) simp_all
  qed
  have B: "bit_vector (nodes t' ! i) = 0" if "i < length (nodes t')" "i \<notin> set (leaves t')" for i
  proof (cases "i < length ?ns0")
    case True
    then have "bit_vector (?ns0 ! i) = 0" using inv that by (simp add: built_inv_def l')
    moreover have "nodes t' ! i = u_nodes u' ! i" using that True len by (simp add: ns' set_leaf_ends_nth l')
    ultimately show ?thesis using view_old [OF v True] by simp
  next
    case False
    then have "length ?ns0 \<le> i" by simp
    then obtain j where j0: "i = length ?ns0 + j" using le_Suc_ex by blast
    with that(1) len' have j: "i = length ?ns0 + j" "j < length ext" by simp_all
    have "fst (ext ! j) = 0" using m j that by (simp add: marks_def l')
    moreover have "nodes t' ! i = u_nodes u' ! i" using that len len' by (simp add: ns' set_leaf_ends_nth l')
    ultimately show ?thesis using view_new [OF v j(2)] j by simp
  qed
  have C: "length (leaves t') \<le> length (buffer (calls @ [(input, class_id)]))"
    using inv cnt by (simp add: built_inv_def l' bs)
  show ?thesis
    unfolding built_inv_def
  proof (intro conjI ballI allI impI)
    show "strings_count t' = length (calls @ [(input, class_id)])" by (simp add: c')
    show "input_string t' = buffer (calls @ [(input, class_id)])" by (simp add: s' bs)
    show "length (leaves t') \<le> length (buffer (calls @ [(input, class_id)]))" by (rule C)
  next
    fix l assume "l \<in> set (leaves t')"
    from A [OF this] show "l < length (nodes t')"
      and "\<exists>k<length (calls @ [(input, class_id)]). bit_vector (nodes t' ! l) = push_bit k 1 \<and>
           end_index (nodes t' ! l) = int (length (buffer (take (Suc k) (calls @ [(input, class_id)]))))"
      by blast+
  next
    fix i assume "i < length (nodes t')" "i \<notin> set (leaves t')"
    then show "bit_vector (nodes t' ! i) = 0" by (rule B)
  qed
qed

lemma append_all_snoc:
  "append_all t (calls @ [c]) =
     (case append_all t calls of
        None \<Rightarrow> None
      | Some (Inl e) \<Rightarrow> Some (Inl e)
      | Some (Inr t') \<Rightarrow> (case append_string t' (fst c) (snd c) of
            None \<Rightarrow> None | Some (Inl e) \<Rightarrow> Some (Inl e) | Some (Inr t'') \<Rightarrow> Some (Inr t'')))"
  by (induction calls arbitrary: t) (auto split: option.splits sum.splits)

lemma built_inv_new: "built_inv [] new_tree"
  by (simp add: built_inv_def new_tree_def buffer_def new_node_def)

lemma built_inv_all:
  "append_all new_tree calls = Some (Inr t) \<Longrightarrow> built_inv calls t"
proof (induction calls arbitrary: t rule: rev_induct)
  case Nil
  then show ?case by (simp add: built_inv_new)
next
  case (snoc c calls)
  from snoc.prems obtain t0 where t0: "append_all new_tree calls = Some (Inr t0)"
    and app: "append_string t0 (fst c) (snd c) = Some (Inr t)"
    by (simp add: append_all_snoc split: option.splits sum.splits)
  from built_inv_append [OF snoc.IH [OF t0] app] show ?case by simp
qed

lemma length_buffer: "length (buffer calls) = symbols_appended calls"
  by (simp add: buffer_def symbols_appended_def length_concat comp_def terminated_def)

lemma fewer_leaves_than_symbols:
  "leaf_count [(''0'', None)] = Some 2 \<and> symbols_appended [(''0'', None)] = 3"
  by code_simp

lemma digit_value_digit_char: "d < 10 \<Longrightarrow> digit_value (digit_char d) = d"
proof -
  assume "d < 10"
  then have "d \<in> {0, 1, 2, 3, 4, 5, 6, 7, 8, 9}" by auto
  then show ?thesis by (auto simp: digit_value_def digit_char_def)
qed

lemma py_str_value: "fold (\<lambda>c a. 10 * a + digit_value c) (py_str n) 0 = n"
proof (induction n rule: py_str.induct)
  case (1 n)
  show ?case
  proof (cases "n < 10")
    case True
    then show ?thesis by (subst py_str.simps) (simp add: digit_value_digit_char)
  next
    case False
    with 1 show ?thesis by (subst py_str.simps) (simp add: digit_value_digit_char)
  qed
qed

lemma py_str_inject: "py_str i = py_str j \<Longrightarrow> i = j"
  by (metis py_str_value)

lemma map_of_register_class:
  "map_of (register_class cls cid k) =
     (map_of cls)(cid \<mapsto> (case map_of cls cid of Some m \<Rightarrow> m @ [k] | None \<Rightarrow> [k]))"
  by (cases "map_of cls cid") (simp_all add: register_class_def update_conv')

lemma classes_members:
  assumes "append_all new_tree calls = Some (Inr t)"
  shows "strings_count t = length calls \<and>
         (\<forall>cid. map_of (classes t) cid = (if members calls cid = [] then None else Some (members calls cid)))"
  using assms
proof (induction calls arbitrary: t rule: rev_induct)
  case Nil
  then show ?case by (auto simp: new_tree_def members_def)
next
  case (snoc c calls)
  from snoc.prems obtain t0 where t0: "append_all new_tree calls = Some (Inr t0)"
    and app: "append_string t0 (fst c) (snd c) = Some (Inr t)"
    by (simp add: append_all_snoc split: option.splits sum.splits)
  from snoc.IH [OF t0] have n: "strings_count t0 = length calls"
    and cl: "\<And>cid. map_of (classes t0) cid = (if members calls cid = [] then None else Some (members calls cid))"
    by simp_all
  from app have c': "strings_count t = strings_count t0 + 1"
    and k': "classes t = register_class (classes t0) (class_key (strings_count t0) (snd c)) (strings_count t0)"
    by (rule append_string_unfold; simp add: class_key_def)+
  have old: "filter (\<lambda>i. class_key i (snd ((calls @ [c]) ! i)) = cid) [0 ..< length calls]
             = members calls cid" for cid
    unfolding members_def by (rule filter_cong) (simp_all add: nth_append)
  have mem: "members (calls @ [c]) cid =
     members calls cid @ (if class_key (length calls) (snd c) = cid then [length calls] else [])" for cid
    using old [of cid] by (simp add: members_def)
  show ?case
    using c' n by (auto simp: k' map_of_register_class cl mem)
qed

lemma propagate_up_invariant:
  assumes run: "propagate_up cls nd prev ns lca = Some (ns', lca')"
    and init: "I nd prev ns lca"
    and step: "\<And>n prev ns lca.
        I (Some n) prev ns lca \<Longrightarrow>
        \<not> (prev \<noteq> 0 \<and> (bit_vector (ns ! n) OR prev) = bit_vector (ns ! n)) \<Longrightarrow>
        I (parent (ns[n := (ns ! n)\<lparr>bit_vector := bit_vector (ns ! n) OR prev\<rparr>] ! n))
          (bit_vector (ns ! n) OR prev)
          (ns[n := (ns ! n)\<lparr>bit_vector := bit_vector (ns ! n) OR prev\<rparr>])
          (if is_successful cls (bit_vector (ns ! n) OR prev) then set_add lca n else lca)"
    and stop: "\<And>n prev ns lca.
        I (Some n) prev ns lca \<Longrightarrow>
        prev \<noteq> 0 \<and> (bit_vector (ns ! n) OR prev) = bit_vector (ns ! n) \<Longrightarrow> Q ns lca"
    and top: "\<And>prev ns lca. I None prev ns lca \<Longrightarrow> Q ns lca"
  shows "Q ns' lca'"
proof -
  define P where "P = (\<lambda>cls' nd prev ns lca (r :: node list \<times> nat list).
     cls' = cls \<longrightarrow> I nd prev ns lca \<longrightarrow> Q (fst r) (snd r))"
  have "P cls nd prev ns lca (ns', lca')"
  proof (rule propagate_up.raw_induct [where P = P, OF _ run])
    fix up cls' nd prev ns lca r
    assume IH: "\<And>cls' nd prev ns lca r. up cls' nd prev ns lca = Some r \<Longrightarrow> P cls' nd prev ns lca r"
      and unf: "(case nd of
                  None \<Rightarrow> Some (ns, lca)
                | Some n \<Rightarrow>
                    if prev \<noteq> 0 \<and> (bit_vector (ns ! n) OR prev) = bit_vector (ns ! n)
                    then Some (ns, lca)
                    else
                      (let bv = bit_vector (ns ! n) OR prev;
                           ns' = ns[n := (ns ! n)\<lparr>bit_vector := bv\<rparr>];
                           lca' = (if is_successful cls' bv then set_add lca n else lca)
                       in up cls' (parent (ns' ! n)) bv ns' lca')) = Some r"
    show "P cls' nd prev ns lca r"
      unfolding P_def
    proof (intro impI)
      assume eq: "cls' = cls" and i: "I nd prev ns lca"
      show "Q (fst r) (snd r)"
      proof (cases nd)
        case None
        with unf have "r = (ns, lca)" by simp
        with i None show ?thesis by (simp add: top)
      next
        case (Some n)
        show ?thesis
        proof (cases "prev \<noteq> 0 \<and> (bit_vector (ns ! n) OR prev) = bit_vector (ns ! n)")
          case True
          with unf Some have "r = (ns, lca)" by simp
          with stop [OF _ True] i Some show ?thesis by simp
        next
          case False
          let ?bv = "bit_vector (ns ! n) OR prev"
          let ?ns = "ns[n := (ns ! n)\<lparr>bit_vector := ?bv\<rparr>]"
          let ?lca = "if is_successful cls ?bv then set_add lca n else lca"
          from unf Some False eq have "up cls (parent (?ns ! n)) ?bv ?ns ?lca = Some r"
            by (simp add: Let_def)
          from IH [OF this] have "P cls (parent (?ns ! n)) ?bv ?ns ?lca r" .
          moreover have "I (parent (?ns ! n)) ?bv ?ns ?lca"
            using step [OF _ False] i Some by simp
          ultimately show ?thesis by (simp add: P_def)
        qed
      qed
    qed
  qed
  then show ?thesis using init by (simp add: P_def)
qed

lemma propagate_leaves_invariant:
  assumes "propagate_leaves cls ls ns lca = Some (ns', lca')"
    and "J ls ns lca"
    and "\<And>l rest ns lca ns1 lca1.
        J (l # rest) ns lca \<Longrightarrow> propagate_up cls (Some l) 0 ns lca = Some (ns1, lca1) \<Longrightarrow>
        J rest ns1 lca1"
  shows "J [] ns' lca'"
  using assms(1,2)
proof (induction ls arbitrary: ns lca)
  case Nil
  then show ?case by simp
next
  case (Cons l rest)
  from Cons.prems(1) obtain ns1 lca1 where up: "propagate_up cls (Some l) 0 ns lca = Some (ns1, lca1)"
    and rest: "propagate_leaves cls rest ns1 lca1 = Some (ns', lca')"
    by (cases "propagate_up cls (Some l) 0 ns lca") auto
  from assms(3) [OF Cons.prems(2) up] have "J rest ns1 lca1" .
  with rest show ?case by (rule Cons.IH)
qed

lemma same_structure_update:
  assumes "list_all2 same_structure ns0 ns"
  shows "list_all2 same_structure ns0 (ns[n := (ns ! n)\<lparr>bit_vector := b\<rparr>])"
proof -
  have "same_structure (ns0 ! i) (ns[n := (ns ! n)\<lparr>bit_vector := b\<rparr>] ! i)"
    if "i < length ns" for i
  proof -
    have "same_structure (ns0 ! i) (ns ! i)"
      using assms that by (simp add: list_all2_conv_all_nth)
    then show ?thesis using that by (cases "i = n") (simp_all add: same_structure_def)
  qed
  then show ?thesis using assms by (simp add: list_all2_conv_all_nth)
qed

lemma propagate_up_frame:
  assumes "propagate_up cls nd prev ns lca = Some (ns', lca')"
    and "list_all2 same_structure ns0 ns"
  shows "list_all2 same_structure ns0 ns'"
  by (rule propagate_up_invariant
        [where I = "\<lambda>nd prev ns lca. list_all2 same_structure ns0 ns"
           and Q = "\<lambda>ns lca. list_all2 same_structure ns0 ns", OF assms(1)])
     (simp_all add: assms(2) same_structure_update)

lemma propagate_leaves_frame:
  assumes "propagate_leaves cls ls ns lca = Some (ns', lca')"
    and "list_all2 same_structure ns0 ns"
  shows "list_all2 same_structure ns0 ns'"
  by (rule propagate_leaves_invariant
        [where J = "\<lambda>ls ns lca. list_all2 same_structure ns0 ns", OF assms(1)])
     (simp_all add: assms(2) propagate_up_frame)

lemma find_common_substrings_unfold:
  assumes "find_common_substrings set_iter t m = Some (t', r)"
  obtains ns lca where
    "propagate_leaves (classes t) (leaves t) (nodes t) [] = Some (ns, lca)"
    "t' = t\<lparr>nodes := ns\<rparr>"
    "materialize_all t' m (set_iter lca) ([], []) \<noteq> None"
    "r = (case the (materialize_all t' m (set_iter lca) ([], [])) of
            Inl e \<Rightarrow> Inl e | Inr acc \<Rightarrow> Inr (snd acc))"
proof -
  from assms obtain ns lca where p: "propagate_leaves (classes t) (leaves t) (nodes t) [] = Some (ns, lca)"
    by (cases "propagate_leaves (classes t) (leaves t) (nodes t) []")
       (auto simp: find_common_substrings_def)
  let ?m = "materialize_all (t\<lparr>nodes := ns\<rparr>) m (set_iter lca) ([], [])"
  from assms p obtain x where x: "?m = Some x"
    by (cases ?m) (simp_all add: find_common_substrings_def Let_def)
  from assms p x have "t' = t\<lparr>nodes := ns\<rparr>"
    and "r = (case x of Inl e \<Rightarrow> Inl e | Inr acc \<Rightarrow> Inr (snd acc))"
    by (cases x; simp add: find_common_substrings_def Let_def)+
  with p x show thesis by (intro that [of ns lca]) simp_all
qed

lemma materialize_all_table:
  assumes "\<forall>c\<in>set cs. entry_ok t m tab c"
    and "set (fst acc) = dom (map_of (snd acc))"
    and "map_of (snd acc) \<subseteq>\<^sub>m map_of tab"
  shows "\<exists>acc'. materialize_all t m cs acc = Some (Inr acc') \<and>
           set (fst acc') = dom (map_of (snd acc')) \<and>
           map_of (snd acc') \<subseteq>\<^sub>m map_of tab \<and>
           dom (map_of (snd acc')) =
             dom (map_of (snd acc)) \<union>
             {k. m \<le> int (length k) \<and> (\<exists>c\<in>set cs. common_substring_of t c = Some k)}"
  using assms
proof (induction cs arbitrary: acc)
  case Nil
  then show ?case by simp
next
  case (Cons c cs)
  from Cons.prems(1) have ok: "entry_ok t m tab c" and rest: "\<forall>c\<in>set cs. entry_ok t m tab c"
    by simp_all
  from ok obtain k where k: "common_substring_of t c = Some k"
    by (cases "common_substring_of t c") (simp_all add: entry_ok_def)
  show ?case
  proof (cases "m \<le> int (length k) \<and> k \<notin> set (fst acc)")
    case True
    with ok k obtain v where v: "map_of tab k = Some v" "positions_of t c k = Some (Inr v)"
      by (cases "map_of tab k") (simp_all add: entry_ok_def)
    let ?acc = "(fst acc @ [k], AList.update k v (snd acc))"
    have m1: "materialize t m c acc = Some (Inr ?acc)"
      using True k v by (simp add: materialize_def)
    have a1: "set (fst ?acc) = dom (map_of (snd ?acc))"
      using Cons.prems(2) by (simp add: update_conv')
    have a2: "map_of (snd ?acc) \<subseteq>\<^sub>m map_of tab"
      using Cons.prems(3) v(1) by (auto simp: update_conv' map_le_def)
    from Cons.IH [OF rest a1 a2] obtain acc' where
      r: "materialize_all t m cs ?acc = Some (Inr acc')"
        "set (fst acc') = dom (map_of (snd acc'))"
        "map_of (snd acc') \<subseteq>\<^sub>m map_of tab"
        "dom (map_of (snd acc')) = dom (map_of (snd ?acc)) \<union>
           {k. m \<le> int (length k) \<and> (\<exists>c\<in>set cs. common_substring_of t c = Some k)}"
      by blast
    have "dom (map_of (snd acc')) = dom (map_of (snd acc)) \<union>
           {k'. m \<le> int (length k') \<and> (\<exists>c'\<in>set (c # cs). common_substring_of t c' = Some k')}"
      using r(4) True k by (auto simp: update_conv')
    with r(1-3) m1 show ?thesis by simp
  next
    case False
    have m1: "materialize t m c acc = Some (Inr acc)"
      using False k by (auto simp: materialize_def)
    from Cons.IH [OF rest Cons.prems(2,3)] obtain acc' where
      r: "materialize_all t m cs acc = Some (Inr acc')"
        "set (fst acc') = dom (map_of (snd acc'))"
        "map_of (snd acc') \<subseteq>\<^sub>m map_of tab"
        "dom (map_of (snd acc')) = dom (map_of (snd acc)) \<union>
           {k. m \<le> int (length k) \<and> (\<exists>c\<in>set cs. common_substring_of t c = Some k)}"
      by blast
    have "dom (map_of (snd acc')) = dom (map_of (snd acc)) \<union>
           {k'. m \<le> int (length k') \<and> (\<exists>c'\<in>set (c # cs). common_substring_of t c' = Some k')}"
      using r(4) False k Cons.prems(2) by auto
    with r(1-3) m1 show ?thesis by simp
  qed
qed

lemma propagated_unfold:
  assumes "propagated calls = Some (t, lca)"
  obtains t0 ns where "append_all new_tree calls = Some (Inr t0)"
    "propagate_leaves (classes t0) (leaves t0) (nodes t0) [] = Some (ns, lca)"
    "t = t0\<lparr>nodes := ns\<rparr>"
proof (cases "append_all new_tree calls")
  case None
  with assms show thesis by (simp add: propagated_def)
next
  case (Some r)
  show thesis
  proof (cases r)
    case (Inl e)
    with Some assms show thesis by (simp add: propagated_def)
  next
    case (Inr t0)
    show thesis
    proof (cases "propagate_leaves (classes t0) (leaves t0) (nodes t0) []")
      case None
      with Some Inr assms show thesis by (simp add: propagated_def)
    next
      case (Some p)
      obtain ns l where p: "p = (ns, l)" by (cases p)
      with Some \<open>append_all new_tree calls = Some r\<close> Inr assms
      have "t = t0\<lparr>nodes := ns\<rparr>" "l = lca" by (simp_all add: propagated_def)
      with Some p \<open>append_all new_tree calls = Some r\<close> Inr show thesis
        by (intro that [of t0 ns]) simp_all
    qed
  qed
qed

lemma map_eq_from_le:
  assumes "m1 \<subseteq>\<^sub>m m2" and "dom m2 \<subseteq> dom m1"
  shows "m1 = m2"
proof (rule ext)
  fix k
  show "m1 k = m2 k"
  proof (cases "m1 k")
    case None
    then have "k \<notin> dom m1" by (simp add: domIff)
    with assms(2) have "k \<notin> dom m2" by blast
    then have "m2 k = None" by (simp add: domIff)
    with None show ?thesis by simp
  next
    case (Some v)
    then have "k \<in> dom m1" by auto
    with assms(1) show ?thesis by (simp add: map_le_def)
  qed
qed

lemma find_after_result:
  assumes "append_all new_tree calls = Some (Inr t0)"
    and "propagate_leaves (classes t0) (leaves t0) (nodes t0) [] = Some (ns, lca)"
    and "materialize_all (t0\<lparr>nodes := ns\<rparr>) m (set_iter lca) ([], []) = Some (Inr acc)"
  shows "returned (find_after set_iter calls m) = Some (snd acc)"
proof -
  have "find_common_substrings set_iter t0 m = Some (t0\<lparr>nodes := ns\<rparr>, Inr (snd acc))"
    unfolding find_common_substrings_def using assms(2,3) by (simp add: Let_def)
  then show ?thesis using assms(1) by (simp add: find_after_def returned_def)
qed

lemma any_order_result:
  assumes tab: "table_ok calls m tab" and iter: "\<forall>xs. set (set_iter xs) = set xs"
  shows "\<exists>f. returned (find_after set_iter calls m) = Some f \<and> map_of f = map_of tab"
proof -
  from tab obtain p where p0: "propagated calls = Some p"
    by (cases "propagated calls") (simp_all add: table_ok_def)
  obtain t lca where p1: "p = (t, lca)" by (cases p)
  from tab p0 p1 have ok: "list_all (entry_ok t m tab) lca"
    and keys: "list_all (\<lambda>e. m \<le> int (length (fst e)) \<and>
                         list_ex (\<lambda>c. common_substring_of t c = Some (fst e)) lca) tab"
    by (simp_all add: table_ok_def)
  from p0 p1 have "propagated calls = Some (t, lca)" by simp
  then obtain t0 ns where t0: "append_all new_tree calls = Some (Inr t0)"
    and pl: "propagate_leaves (classes t0) (leaves t0) (nodes t0) [] = Some (ns, lca)"
    and t: "t = t0\<lparr>nodes := ns\<rparr>"
    by (rule propagated_unfold)
  have "\<forall>c\<in>set (set_iter lca). entry_ok t m tab c"
    using ok iter by (simp add: list_all_iff)
  from materialize_all_table [OF this, of "([], [])"] obtain acc where
    ma: "materialize_all t m (set_iter lca) ([], []) = Some (Inr acc)"
    and le: "map_of (snd acc) \<subseteq>\<^sub>m map_of tab"
    and dm: "dom (map_of (snd acc)) =
        {k. m \<le> int (length k) \<and> (\<exists>c\<in>set (set_iter lca). common_substring_of t c = Some k)}"
    by auto
  have "dom (map_of tab) \<subseteq> dom (map_of (snd acc))"
  proof
    fix k assume "k \<in> dom (map_of tab)"
    then obtain v where "(k, v) \<in> set tab" by (auto dest: map_of_SomeD)
    with keys have "m \<le> int (length (fst (k, v))) \<and>
        (\<exists>c\<in>set lca. common_substring_of t c = Some (fst (k, v)))"
      unfolding list_all_iff list_ex_iff by blast
    then have "m \<le> int (length k)" "\<exists>c\<in>set lca. common_substring_of t c = Some k"
      by simp_all
    then show "k \<in> dom (map_of (snd acc))" using iter by (simp add: dm)
  qed
  with le have "map_of (snd acc) = map_of tab" by (rule map_eq_from_le)
  moreover have "returned (find_after set_iter calls m) = Some (snd acc)"
    using t0 pl ma [unfolded t] by (rule find_after_result)
  ultimately show ?thesis by simp
qed

lemma table_B: "table_ok scenario_B 2 [(''abc'', [[0], [3]]), (''bc'', [[1], [4]])]"
  by code_simp

lemma table_A:
  "table_ok scenario_A 1
     [(''xabxac'', [[2]]), (''xa'', [[0, 3]]), (''abxac'', [[3]]), (''a'', [[1, 4]]),
      (''bxac'', [[4]]), (''xac'', [[5]]), (''ac'', [[6]]), (''c'', [[7]])]"
  by code_simp

lemma append_string_ends:
  assumes "append_string t input class_id = Some r"
  shows "strings_count (left_behind r) = strings_count t + 1"
    and "input_string (left_behind r) = input_string t @ terminated (strings_count t) input"
proof -
  let ?s = "input_string t @ terminated (strings_count t) input"
  let ?mc = "main_circle ?s (strings_count t) (map int [length (input_string t) ..< length ?s])
       \<lparr>u_nodes = nodes t, active_node = root, active_edge = 0, active_length = 0,
        remainder = 0, previous_node = None, new_leaves = []\<rparr>"
  from assms obtain x where x: "?mc = Some x"
    by (cases ?mc) (simp_all add: append_string_def Let_def terminated_def)
  show "strings_count (left_behind r) = strings_count t + 1"
    using assms x by (cases x) (auto simp: append_string_def Let_def terminated_def left_behind_def)
  show "input_string (left_behind r) = input_string t @ terminated (strings_count t) input"
    using assms x by (cases x) (auto simp: append_string_def Let_def terminated_def left_behind_def)
qed

text \<open>
  The leaf list after a run of appends: each symbol put into the buffer accounts for at
  most one leaf, and each leaf carries the bit of the string during whose append it was
  made and ends where that string's ending ends.
\<close>

lemma one_leaf_per_symbol_not_per_string:
  "leaf_count [(''a'', None)] = Some 3 \<and> length ''a'' + 1 = (2 :: nat)"
  by code_simp

lemma leaves_after_appends:
  assumes "append_all new_tree calls = Some (Inr t)"
  shows "length (leaves t) \<le> symbols_appended calls \<and>
         (\<forall>l\<in>set (leaves t). \<exists>k<length calls.
            bit_vector (nodes t ! l) = push_bit k 1 \<and>
            end_index (nodes t ! l) = int (symbols_appended (take (Suc k) calls)))"
  using built_inv_all [OF assms] by (simp add: built_inv_def length_buffer)

section \<open>The references stay consistent\<close>

lemma linkedv_len: "linkedv P E S \<Longrightarrow> length E = length P \<and> length S = length P"
  unfolding linkedv_def by blast

lemma linkedv_parent:
  "linkedv P E S \<Longrightarrow> c < length P \<Longrightarrow> P ! c = Some p \<Longrightarrow>
   p < length P \<and> (\<exists>k. (E ! p) k = Some c)"
  unfolding linkedv_def by (elim conjE) blast

lemma linkedv_edge:
  "linkedv P E S \<Longrightarrow> p < length P \<Longrightarrow> (E ! p) k = Some c \<Longrightarrow> c < length P \<and> P ! c = Some p"
  unfolding linkedv_def by (elim conjE) blast

lemma linkedv_inj:
  "linkedv P E S \<Longrightarrow> p < length P \<Longrightarrow> (E ! p) k = Some c \<Longrightarrow> (E ! p) k' = Some c \<Longrightarrow> k = k'"
  unfolding linkedv_def by (elim conjE) blast

lemma linkedv_suf:
  "linkedv P E S \<Longrightarrow> i < length P \<Longrightarrow> S ! i = Some l \<Longrightarrow> l < length P"
  unfolding linkedv_def by (elim conjE) blast

lemma linkedvI:
  assumes "length E = length P" "length S = length P"
    and "\<And>c p. c < length P \<Longrightarrow> P ! c = Some p \<Longrightarrow> p < length P \<and> (\<exists>k. (E ! p) k = Some c)"
    and "\<And>p k c. p < length P \<Longrightarrow> (E ! p) k = Some c \<Longrightarrow> c < length P \<and> P ! c = Some p"
    and "\<And>p k k' c. p < length P \<Longrightarrow> (E ! p) k = Some c \<Longrightarrow> (E ! p) k' = Some c \<Longrightarrow> k = k'"
    and "\<And>i l. i < length P \<Longrightarrow> S ! i = Some l \<Longrightarrow> l < length P"
  shows "linkedv P E S"
  unfolding linkedv_def
proof (intro conjI allI impI)
  show "length E = length P" "length S = length P" by fact+
next
  fix c p assume "c < length P" "P ! c = Some p"
  from assms(3) [OF this] show "p < length P" "\<exists>k. (E ! p) k = Some c" by blast+
next
  fix p k c assume "p < length P" "(E ! p) k = Some c"
  from assms(4) [OF this] show "c < length P" "P ! c = Some p" by blast+
next
  fix p k k' c assume "p < length P" "(E ! p) k = Some c" "(E ! p) k' = Some c"
  then show "k = k'" by (rule assms(5))
next
  fix i l assume "i < length P" "S ! i = Some l"
  then show "l < length P" by (rule assms(6))
qed

lemma linkedv_suffix:
  assumes l: "linkedv P E S" and "tgt < length P"
  shows "linkedv P E (S[p := Some tgt])"
proof (rule linkedvI)
  show "length E = length P" "length (S[p := Some tgt]) = length P"
    using linkedv_len [OF l] by simp_all
next
  fix c q assume "c < length P" "P ! c = Some q"
  then show "q < length P \<and> (\<exists>k. (E ! q) k = Some c)" by (rule linkedv_parent [OF l])
next
  fix q k c assume "q < length P" "(E ! q) k = Some c"
  then show "c < length P \<and> P ! c = Some q" by (rule linkedv_edge [OF l])
next
  fix q k k' c assume "q < length P" "(E ! q) k = Some c" "(E ! q) k' = Some c"
  then show "k = k'" by (rule linkedv_inj [OF l])
next
  fix i x assume i: "i < length P" "S[p := Some tgt] ! i = Some x"
  show "x < length P"
  proof (cases "i = p")
    case True
    with i linkedv_len [OF l] have "x = tgt" by simp
    with assms(2) show ?thesis by simp
  next
    case False
    with i have "S ! i = Some x" by simp
    with i(1) show ?thesis by (rule linkedv_suf [OF l])
  qed
qed

lemma linkedv_leaf:
  assumes l: "linkedv P E S" and an: "an < length P" and key: "(E ! an) key = None"
  shows "linkedv (P @ [Some an]) (E[an := (E ! an)(key \<mapsto> length P)] @ [Map.empty]) (S @ [None])"
proof -
  let ?n = "length P"
  let ?P = "P @ [Some an]"
  let ?E = "E[an := (E ! an)(key \<mapsto> ?n)] @ [Map.empty]"
  note b = linkedv_parent [OF l] and c = linkedv_edge [OF l] and f = linkedv_inj [OF l]
    and h = linkedv_suf [OF l]
  have len: "length E = ?n" "length S = ?n" using linkedv_len [OF l] by simp_all
  have E_old: "?E ! p = (if p = an then (E ! an)(key \<mapsto> ?n) else E ! p)" if "p < ?n" for p
    using that len by (simp add: nth_append nth_list_update)
  have E_new: "?E ! ?n = Map.empty" using len by (simp add: nth_append)
  have P_old: "?P ! c = P ! c" if "c < ?n" for c using that by (simp add: nth_append)
  have P_new: "?P ! ?n = Some an" by simp
  have B: "p < length ?P \<and> (\<exists>k. (?E ! p) k = Some c)" if "c < length ?P" "?P ! c = Some p" for c p
  proof (cases "c = ?n")
    case True
    with that have "p = an" by simp
    with an True show ?thesis by (auto simp: E_old)
  next
    case False
    with that have c: "c < ?n" "P ! c = Some p" by (simp_all add: nth_append)
    from b [OF this] obtain k where k: "p < ?n" "(E ! p) k = Some c" by blast
    with key have "p = an \<Longrightarrow> k \<noteq> key" by auto
    with k show ?thesis by (auto simp: E_old)
  qed
  have C: "c < length ?P \<and> ?P ! c = Some p" if "p < length ?P" "(?E ! p) k = Some c" for p k c
  proof (cases "p = ?n")
    case True
    with that E_new show ?thesis by simp
  next
    case False
    with that have p: "p < ?n" by simp
    show ?thesis
    proof (cases "p = an \<and> k = key")
      case True
      with that p have "c = ?n" by (simp add: E_old)
      with True show ?thesis by simp
    next
      case False
      with that p have "(E ! p) k = Some c" by (auto simp: E_old split: if_splits)
      from c [OF p this] show ?thesis by (simp add: nth_append)
    qed
  qed
  have F: "k = k'" if "p < length ?P" "(?E ! p) k = Some c" "(?E ! p) k' = Some c" for p k k' c
  proof (cases "p = ?n")
    case True
    with that E_new show ?thesis by simp
  next
    case False
    with that have p: "p < ?n" by simp
    show ?thesis
    proof (cases "p = an")
      case True
      show ?thesis
      proof (cases "c = ?n")
        case True
        have "k = key"
        proof (rule ccontr)
          assume "k \<noteq> key"
          with that(2) p \<open>p = an\<close> have "(E ! an) k = Some c" by (simp add: E_old)
          from c [OF an this] True show False by simp
        qed
        moreover have "k' = key"
        proof (rule ccontr)
          assume "k' \<noteq> key"
          with that(3) p \<open>p = an\<close> have "(E ! an) k' = Some c" by (simp add: E_old)
          from c [OF an this] True show False by simp
        qed
        ultimately show ?thesis by simp
      next
        case False
        with that p True have "(E ! an) k = Some c" "(E ! an) k' = Some c"
          by (auto simp: E_old split: if_splits)
        from f [OF an this] show ?thesis .
      qed
    next
      case False
      with that p have "(E ! p) k = Some c" "(E ! p) k' = Some c" by (simp_all add: E_old)
      from f [OF p this] show ?thesis .
    qed
  qed
  have H: "l < length ?P" if "i < length (S @ [None])" "(S @ [None]) ! i = Some l" for i l
  proof (cases "i = ?n")
    case True
    with that len show ?thesis by (simp add: nth_append)
  next
    case False
    with that len have "i < ?n" "S ! i = Some l" by (simp_all add: nth_append)
    from h [OF this] show ?thesis by simp
  qed
  show ?thesis
  proof (rule linkedvI)
    show "length ?E = length ?P" using len by simp
    show "length (S @ [None]) = length ?P" using len by simp
  next
    fix c p assume "c < length ?P" "?P ! c = Some p"
    then show "p < length ?P \<and> (\<exists>k. (?E ! p) k = Some c)" by (rule B)
  next
    fix p k c assume "p < length ?P" "(?E ! p) k = Some c"
    then show "c < length ?P \<and> ?P ! c = Some p" by (rule C)
  next
    fix p k k' c assume "p < length ?P" "(?E ! p) k = Some c" "(?E ! p) k' = Some c"
    then show "k = k'" by (rule F)
  next
    fix i l assume "i < length ?P" "(S @ [None]) ! i = Some l"
    with len show "l < length ?P" using H [of i l] by simp
  qed
qed

lemma linkedv_split:
  assumes l: "linkedv P E S" and an: "an < length P" and key: "(E ! an) key = Some nn"
    and ne: "c3 \<noteq> c2"
    and P1: "P1 = P @ [Some an]" and P3: "P3 = P1[nn := Some (length P)]"
    and P4: "P4 = P3 @ [Some (length P)]"
    and E1: "E1 = E[an := (E ! an)(key \<mapsto> length P)] @ [Map.empty]"
    and E3: "E3 = E1[length P := (E1 ! length P)(c3 \<mapsto> nn)]"
    and E4: "E4 = E3[length P := (E3 ! length P)(c2 \<mapsto> Suc (length P))] @ [Map.empty]"
  shows "linkedv P4 E4 (S @ [None] @ [None])"
proof -
  let ?n = "length P"
  note b = linkedv_parent [OF l] and c = linkedv_edge [OF l] and f = linkedv_inj [OF l]
    and h = linkedv_suf [OF l]
  have len: "length E = ?n" "length S = ?n" using linkedv_len [OF l] by simp_all
  from c [OF an key] have nn: "nn < ?n" and Pnn: "P ! nn = Some an" by simp_all
  have lenP4: "length P4 = Suc (Suc ?n)" by (simp add: P4 P3 P1)
  have lenE4: "length E4 = Suc (Suc ?n)" by (simp add: E4 E3 E1 len)
  have E_an: "E4 ! an = (E ! an)(key \<mapsto> ?n)"
    using an len by (simp add: E4 E3 E1 nth_append)
  have E_old: "E4 ! p = E ! p" if "p < ?n" "p \<noteq> an" for p
    using that len by (simp add: E4 E3 E1 nth_append)
  have E_n: "E4 ! ?n = [c3 \<mapsto> nn, c2 \<mapsto> Suc ?n]"
    using len by (simp add: E4 E3 E1 nth_append)
  have E_new: "E4 ! Suc ?n = Map.empty"
    using len by (simp add: E4 E3 E1 nth_append)
  have P_nn: "P4 ! nn = Some ?n" using nn by (simp add: P4 P3 P1 nth_append)
  have P_old: "P4 ! c = P ! c" if "c < ?n" "c \<noteq> nn" for c
    using that by (simp add: P4 P3 P1 nth_append)
  have P_n: "P4 ! ?n = Some an" using nn by (simp add: P4 P3 P1 nth_append)
  have P_new: "P4 ! Suc ?n = Some ?n" by (simp add: P4 P3 P1 nth_append)
  have cases3: "c < ?n \<or> c = ?n \<or> c = Suc ?n" if "c < Suc (Suc ?n)" for c
    using that by arith
  have B: "p < Suc (Suc ?n) \<and> (\<exists>k. (E4 ! p) k = Some c)" if "c < Suc (Suc ?n)" "P4 ! c = Some p" for c p
  proof -
    from cases3 [OF that(1)] consider "c = Suc ?n" | "c = ?n" | "c = nn" | "c < ?n" "c \<noteq> nn" by blast
    then show ?thesis
    proof cases
      case 1
      with that P_new have "p = ?n" by simp
      moreover have "(E4 ! ?n) c2 = Some (Suc ?n)" by (simp add: E_n)
      ultimately show ?thesis using 1 by auto
    next
      case 2
      with that P_n have "p = an" by simp
      moreover have "(E4 ! an) key = Some ?n" by (simp add: E_an)
      ultimately show ?thesis using 2 an by auto
    next
      case 3
      with that P_nn have "p = ?n" by simp
      moreover have "(E4 ! ?n) c3 = Some nn" using ne by (simp add: E_n)
      ultimately show ?thesis using 3 by auto
    next
      case 4
      with that have Pc: "P ! c = Some p" by (simp add: P_old)
      from b [OF 4(1) Pc] obtain k where k: "p < ?n" "(E ! p) k = Some c" by blast
      show ?thesis
      proof (cases "p = an")
        case True
        with k key 4 have "k \<noteq> key" by auto
        with k True have "(E4 ! p) k = Some c" by (simp add: E_an)
        with k show ?thesis by auto
      next
        case False
        with k have "(E4 ! p) k = Some c" by (simp add: E_old)
        with k show ?thesis by auto
      qed
    qed
  qed
  have C: "c < Suc (Suc ?n) \<and> P4 ! c = Some p" if "p < Suc (Suc ?n)" "(E4 ! p) k = Some c" for p k c
  proof -
    from cases3 [OF that(1)] consider "p = Suc ?n" | "p = ?n" | "p = an" | "p < ?n" "p \<noteq> an" by blast
    then show ?thesis
    proof cases
      case 1
      with that E_new show ?thesis by simp
    next
      case 2
      with that have "[c3 \<mapsto> nn, c2 \<mapsto> Suc ?n] k = Some c" by (simp add: E_n)
      then have "c = nn \<or> c = Suc ?n" by (auto split: if_splits)
      then show ?thesis using 2 nn P_nn P_new by auto
    next
      case 3
      show ?thesis
      proof (cases "k = key")
        case True
        with that 3 have "c = ?n" by (simp add: E_an)
        with 3 P_n show ?thesis by simp
      next
        case False
        with that 3 have e: "(E ! an) k = Some c" by (simp add: E_an)
        from c [OF an e] have c': "c < ?n" "P ! c = Some an" by simp_all
        have "c \<noteq> nn"
        proof
          assume "c = nn"
          with e have "(E ! an) k = Some nn" by simp
          from f [OF an this key] False show False by simp
        qed
        with c' 3 show ?thesis by (simp add: P_old)
      qed
    next
      case 4
      with that have e: "(E ! p) k = Some c" by (simp add: E_old)
      from c [OF 4(1) e] have c': "c < ?n" "P ! c = Some p" by simp_all
      with Pnn 4 have "c \<noteq> nn" by auto
      with c' show ?thesis by (simp add: P_old)
    qed
  qed
  have F: "k = k'" if "p < Suc (Suc ?n)" "(E4 ! p) k = Some c" "(E4 ! p) k' = Some c" for p k k' c
  proof -
    from cases3 [OF that(1)] consider "p = Suc ?n" | "p = ?n" | "p = an" | "p < ?n" "p \<noteq> an" by blast
    then show ?thesis
    proof cases
      case 1
      with that E_new show ?thesis by simp
    next
      case 2
      with that have "[c3 \<mapsto> nn, c2 \<mapsto> Suc ?n] k = Some c" "[c3 \<mapsto> nn, c2 \<mapsto> Suc ?n] k' = Some c"
        by (simp_all add: E_n)
      with nn show ?thesis by (auto split: if_splits)
    next
      case 3
      with that have e: "((E ! an)(key \<mapsto> ?n)) k = Some c" "((E ! an)(key \<mapsto> ?n)) k' = Some c"
        by (simp_all add: E_an)
      show ?thesis
      proof (cases "c = ?n")
        case True
        have "k = key"
        proof (rule ccontr)
          assume "k \<noteq> key"
          with e(1) have "(E ! an) k = Some c" by simp
          from c [OF an this] True show False by simp
        qed
        moreover have "k' = key"
        proof (rule ccontr)
          assume "k' \<noteq> key"
          with e(2) have "(E ! an) k' = Some c" by simp
          from c [OF an this] True show False by simp
        qed
        ultimately show ?thesis by simp
      next
        case False
        with e have "(E ! an) k = Some c" "(E ! an) k' = Some c" by (auto split: if_splits)
        from f [OF an this] show ?thesis .
      qed
    next
      case 4
      with that have "(E ! p) k = Some c" "(E ! p) k' = Some c" by (simp_all add: E_old)
      from f [OF 4(1) this] show ?thesis .
    qed
  qed
  have H: "x < Suc (Suc ?n)" if "i < Suc (Suc ?n)" "(S @ [None] @ [None]) ! i = Some x" for i x
  proof -
    from cases3 [OF that(1)] consider "i = Suc ?n" | "i = ?n" | "i < ?n" by blast
    then show ?thesis
    proof cases
      case 1
      with that len show ?thesis by (simp add: nth_append)
    next
      case 2
      with that len show ?thesis by (simp add: nth_append)
    next
      case 3
      with that len have "S ! i = Some x" by (simp add: nth_append)
      from h [OF 3 this] show ?thesis by simp
    qed
  qed
  show ?thesis
  proof (rule linkedvI)
    show "length E4 = length P4" by (simp add: lenP4 lenE4)
    show "length (S @ [None] @ [None]) = length P4" by (simp add: lenP4 len)
  next
    fix c p assume "c < length P4" "P4 ! c = Some p"
    then show "p < length P4 \<and> (\<exists>k. (E4 ! p) k = Some c)" using B [of c p] by (simp add: lenP4)
  next
    fix p k c assume "p < length P4" "(E4 ! p) k = Some c"
    then show "c < length P4 \<and> P4 ! c = Some p" using C [of p k c] by (simp add: lenP4)
  next
    fix p k k' c assume "p < length P4" "(E4 ! p) k = Some c" "(E4 ! p) k' = Some c"
    then show "k = k'" using F [of p k c k'] by (simp add: lenP4)
  next
    fix i x assume "i < length P4" "(S @ [None] @ [None]) ! i = Some x"
    then show "x < length P4" using H [of i x] by (simp add: lenP4)
  qed
qed

lemma views_length:
  "length (pv ns) = length ns" "length (ev ns) = length ns" "length (sv ns) = length ns"
  by (simp_all add: pv_def ev_def sv_def)

lemma map_update_same:
  assumes "f n = f (ns ! i)"
  shows "map f (ns[i := n]) = map f ns"
proof (rule nth_equalityI)
  show "length (map f (ns[i := n])) = length (map f ns)" by simp
next
  fix j assume "j < length (map f (ns[i := n]))"
  then have "j < length ns" by simp
  then show "map f (ns[i := n]) ! j = map f ns ! j"
    using assms by (cases "j = i") simp_all
qed

lemma pv_update_same: "parent n = parent (ns ! i) \<Longrightarrow> pv (ns[i := n]) = pv ns"
  unfolding pv_def by (rule map_update_same)

lemma ev_update_same: "edges n = edges (ns ! i) \<Longrightarrow> ev (ns[i := n]) = ev ns"
  unfolding ev_def by (rule map_update_same) simp

lemma sv_update_same: "suffix_link n = suffix_link (ns ! i) \<Longrightarrow> sv (ns[i := n]) = sv ns"
  unfolding sv_def by (rule map_update_same)

lemmas views_update_same = pv_update_same ev_update_same sv_update_same

lemma views_edges_update:
  assumes "p < length ns"
  shows "pv (ns[p := (ns ! p)\<lparr>edges := AList.update key c (edges (ns ! p))\<rparr>]) = pv ns"
    "ev (ns[p := (ns ! p)\<lparr>edges := AList.update key c (edges (ns ! p))\<rparr>])
       = (ev ns)[p := (ev ns ! p)(key \<mapsto> c)]"
    "sv (ns[p := (ns ! p)\<lparr>edges := AList.update key c (edges (ns ! p))\<rparr>]) = sv ns"
proof -
  let ?ns = "ns[p := (ns ! p)\<lparr>edges := AList.update key c (edges (ns ! p))\<rparr>]"
  show "pv ?ns = pv ns"
  proof (rule nth_equalityI)
    show "length (pv ?ns) = length (pv ns)" by (simp add: pv_def)
  next
    fix j assume "j < length (pv ?ns)"
    then have "j < length ns" by (simp add: pv_def)
    then show "pv ?ns ! j = pv ns ! j" by (cases "j = p") (simp_all add: pv_def)
  qed
  show "sv ?ns = sv ns"
  proof (rule nth_equalityI)
    show "length (sv ?ns) = length (sv ns)" by (simp add: sv_def)
  next
    fix j assume "j < length (sv ?ns)"
    then have "j < length ns" by (simp add: sv_def)
    then show "sv ?ns ! j = sv ns ! j" by (cases "j = p") (simp_all add: sv_def)
  qed
  show "ev ?ns = (ev ns)[p := (ev ns ! p)(key \<mapsto> c)]"
  proof (rule nth_equalityI)
    show "length (ev ?ns) = length ((ev ns)[p := (ev ns ! p)(key \<mapsto> c)])" by (simp add: ev_def)
  next
    fix j assume "j < length (ev ?ns)"
    then have "j < length ns" by (simp add: ev_def)
    then show "ev ?ns ! j = (ev ns)[p := (ev ns ! p)(key \<mapsto> c)] ! j"
      using assms by (cases "j = p") (simp_all add: ev_def update_conv')
  qed
qed

lemma views_snoc:
  "pv (ns @ [n]) = pv ns @ [parent n]"
  "ev (ns @ [n]) = ev ns @ [map_of (edges n)]"
  "sv (ns @ [n]) = sv ns @ [suffix_link n]"
  by (simp_all add: pv_def ev_def sv_def)

lemma views_add_child:
  assumes "p < length ns"
  shows "pv (fst (add_child ns p key st en)) = pv ns @ [Some p]"
    "ev (fst (add_child ns p key st en)) = (ev ns)[p := (ev ns ! p)(key \<mapsto> length ns)] @ [Map.empty]"
    "sv (fst (add_child ns p key st en)) = sv ns @ [None]"
proof -
  let ?nw = "(new_node st en)\<lparr>parent := Some p\<rparr>"
  let ?ns1 = "ns @ [?nw]"
  have p1: "p < length ?ns1" using assms by simp
  have r: "fst (add_child ns p key st en)
           = ?ns1[p := (?ns1 ! p)\<lparr>edges := AList.update key (length ns) (edges (?ns1 ! p))\<rparr>]"
    by (simp add: add_child_def Let_def)
  have e1: "ev ?ns1 = ev ns @ [Map.empty]" by (simp add: views_snoc new_node_def)
  have "ev ?ns1 ! p = ev ns ! p" using assms by (simp add: e1 nth_append views_length)
  then show "ev (fst (add_child ns p key st en)) = (ev ns)[p := (ev ns ! p)(key \<mapsto> length ns)] @ [Map.empty]"
    using assms unfolding r views_edges_update(2) [OF p1]
    by (simp add: e1 list_update_append views_length)
  show "pv (fst (add_child ns p key st en)) = pv ns @ [Some p]"
    unfolding r views_edges_update(1) [OF p1] by (simp add: views_snoc)
  show "sv (fst (add_child ns p key st en)) = sv ns @ [None]"
    unfolding r views_edges_update(3) [OF p1] by (simp add: views_snoc new_node_def)
qed

lemma views_new_leaf:
  assumes "p < length ns"
  shows "pv (fst (new_leaf ns p key index k)) = pv ns @ [Some p]"
    "ev (fst (new_leaf ns p key index k)) = (ev ns)[p := (ev ns ! p)(key \<mapsto> length ns)] @ [Map.empty]"
    "sv (fst (new_leaf ns p key index k)) = sv ns @ [None]"
proof -
  obtain ns1 leaf where ac: "add_child ns p key index END_OF_STRING = (ns1, leaf)"
    by (cases "add_child ns p key index END_OF_STRING")
  have r: "fst (new_leaf ns p key index k) = ns1[leaf := (ns1 ! leaf)\<lparr>bit_vector := push_bit k 1\<rparr>]"
    by (simp add: new_leaf_def ac)
  have ns1: "ns1 = fst (add_child ns p key index END_OF_STRING)" by (simp add: ac)
  show "pv (fst (new_leaf ns p key index k)) = pv ns @ [Some p]"
    unfolding r by (simp add: views_update_same) (simp add: ns1 views_add_child [OF assms])
  show "ev (fst (new_leaf ns p key index k)) = (ev ns)[p := (ev ns ! p)(key \<mapsto> length ns)] @ [Map.empty]"
    unfolding r by (simp add: views_update_same) (simp add: ns1 views_add_child [OF assms])
  show "sv (fst (new_leaf ns p key index k)) = sv ns @ [None]"
    unfolding r by (simp add: views_update_same) (simp add: ns1 views_add_child [OF assms])
qed

lemma length_new_leaf: "length (fst (new_leaf ns p key index k)) = Suc (length ns)"
  by (simp add: new_leaf_def add_child_def Let_def)

lemma views_set_suffix_link:
  "pv (set_suffix_link ns prev tgt) = pv ns"
  "ev (set_suffix_link ns prev tgt) = ev ns"
  "sv (set_suffix_link ns prev tgt) = (case prev of None \<Rightarrow> sv ns | Some p \<Rightarrow> (sv ns)[p := Some tgt])"
proof -
  show "pv (set_suffix_link ns prev tgt) = pv ns"
    by (cases prev) (simp_all add: set_suffix_link_def pv_update_same)
  show "ev (set_suffix_link ns prev tgt) = ev ns"
    by (cases prev) (simp_all add: set_suffix_link_def ev_update_same)
  show "sv (set_suffix_link ns prev tgt) = (case prev of None \<Rightarrow> sv ns | Some p \<Rightarrow> (sv ns)[p := Some tgt])"
    by (cases prev) (simp_all add: set_suffix_link_def sv_def map_update)
qed

lemma length_set_suffix_link: "length (set_suffix_link ns prev tgt) = length ns"
  by (cases prev) (simp_all add: set_suffix_link_def)

lemma linked_set_suffix_link:
  assumes "linked ns" "tgt < length ns"
  shows "linked (set_suffix_link ns prev tgt)"
proof (cases prev)
  case None
  with assms show ?thesis by (simp add: set_suffix_link_def)
next
  case (Some p)
  from assms have "linkedv (pv ns) (ev ns) ((sv ns)[p := Some tgt])"
    unfolding linked_def by (intro linkedv_suffix) (simp_all add: views_length)
  then show ?thesis
    unfolding linked_def views_set_suffix_link by (simp add: Some)
qed

lemma views_add_existing:
  assumes "p < length ns"
  shows "pv (add_exisiting_node_as_child ns p key nd) = (pv ns)[nd := Some p]"
    "ev (add_exisiting_node_as_child ns p key nd) = (ev ns)[p := (ev ns ! p)(key \<mapsto> nd)]"
    "sv (add_exisiting_node_as_child ns p key nd) = sv ns"
proof -
  let ?ns1 = "ns[nd := (ns ! nd)\<lparr>parent := Some p\<rparr>]"
  have p1: "p < length ?ns1" using assms by simp
  have r: "add_exisiting_node_as_child ns p key nd
           = ?ns1[p := (?ns1 ! p)\<lparr>edges := AList.update key nd (edges (?ns1 ! p))\<rparr>]"
    by (simp add: add_exisiting_node_as_child_def Let_def)
  have e: "ev ?ns1 = ev ns" and s: "sv ?ns1 = sv ns"
    by (simp_all add: views_update_same)
  have p: "pv ?ns1 = (pv ns)[nd := Some p]" by (simp add: pv_def map_update)
  show "pv (add_exisiting_node_as_child ns p key nd) = (pv ns)[nd := Some p]"
    unfolding r views_edges_update(1) [OF p1] by (rule p)
  show "ev (add_exisiting_node_as_child ns p key nd) = (ev ns)[p := (ev ns ! p)(key \<mapsto> nd)]"
    unfolding r views_edges_update(2) [OF p1] by (simp add: e)
  show "sv (add_exisiting_node_as_child ns p key nd) = sv ns"
    unfolding r views_edges_update(3) [OF p1] by (rule s)
qed

lemma linked_insert_leaf:
  assumes "link_inv u" and key: "map_of (edges (u_nodes u ! active_node u)) key = None"
  shows "link_inv (insert_leaf k index u key)"
proof -
  let ?ns = "u_nodes u" and ?an = "active_node u"
  from assms(1) have l: "linked ?ns" and an: "?an < length ?ns" by (simp_all add: link_inv_def)
  obtain ns1 leaf where nl: "new_leaf ?ns ?an key index k = (ns1, leaf)"
    by (cases "new_leaf ?ns ?an key index k")
  then have ns1: "ns1 = fst (new_leaf ?ns ?an key index k)" by simp
  have len1: "length ns1 = Suc (length ?ns)" by (simp add: ns1 length_new_leaf)
  have "(ev ?ns ! ?an) key = None" using key an by (simp add: ev_def)
  with l an have "linkedv (pv ?ns @ [Some ?an])
       ((ev ?ns)[?an := (ev ?ns ! ?an)(key \<mapsto> length (pv ?ns))] @ [Map.empty]) (sv ?ns @ [None])"
    unfolding linked_def by (intro linkedv_leaf) (simp_all add: views_length)
  then have "linked ns1"
    unfolding linked_def ns1 views_new_leaf [OF an] by (simp add: views_length)
  then have "linked (set_suffix_link ns1 (previous_node u) ?an)"
    by (rule linked_set_suffix_link) (simp add: len1 an less_SucI)
  moreover have "u_nodes (insert_leaf k index u key) = set_suffix_link ns1 (previous_node u) ?an"
    "active_node (insert_leaf k index u key) = ?an"
    "previous_node (insert_leaf k index u key) = Some ?an"
    by (simp_all add: insert_leaf_def nl)
  ultimately show ?thesis
    using an by (simp add: link_inv_def length_set_suffix_link len1)
qed

lemma start_add_child:
  "i < length ns \<Longrightarrow> start (fst (add_child ns p key st en) ! i) = start (ns ! i)"
  by (cases "i = p") (simp_all add: add_child_def Let_def nth_append)

lemma linked_split_edge:
  assumes inv: "link_inv u"
    and key: "map_of (edges (u_nodes u ! active_node u)) key = Some nn"
    and c1: "py_getitem s (start (u_nodes u ! nn) + active_length u) = Inr c1"
    and c2: "py_getitem s index = Inr c2"
    and ne: "c1 \<noteq> c2"
    and run: "split_edge s k index u key nn = Inr u'"
  shows "link_inv u' \<and> active_node u' = active_node u"
proof -
  let ?ns = "u_nodes u" and ?an = "active_node u"
  let ?n = "length ?ns"
  let ?st = "start (?ns ! nn)"
  from inv have l: "linked ?ns" and an: "?an < ?n" by (simp_all add: link_inv_def)
  have l': "linkedv (pv ?ns) (ev ?ns) (sv ?ns)" using l by (simp add: linked_def)
  have an': "?an < length (pv ?ns)" using an by (simp add: views_length)
  have key': "(ev ?ns ! ?an) key = Some nn" using key an by (simp add: ev_def)
  from linkedv_edge [OF l' an' key'] have nn: "nn < ?n" by (simp add: views_length)
  obtain ns1 sp where ac: "add_child ?ns ?an key ?st (?st + active_length u) = (ns1, sp)"
    by (cases "add_child ?ns ?an key ?st (?st + active_length u)")
  have ns1: "ns1 = fst (add_child ?ns ?an key ?st (?st + active_length u))" by (simp add: ac)
  have sp: "sp = ?n" using snd_add_child [of ?ns ?an key ?st "?st + active_length u"] by (simp add: ac)
  have len1: "length ns1 = Suc ?n" by (simp add: ns1 length_add_child)
  let ?ns2 = "ns1[nn := (ns1 ! nn)\<lparr>start := start (ns1 ! nn) + active_length u\<rparr>]"
  have st2: "start (?ns2 ! nn) = ?st + active_length u"
    using nn len1 by (simp add: ns1 start_add_child)
  have c3: "py_getitem s (start (?ns2 ! nn)) = Inr c1" unfolding st2 by (rule c1)
  let ?ns3 = "add_exisiting_node_as_child ?ns2 sp c1 nn"
  obtain ns4 leaf where nl: "new_leaf ?ns3 sp c2 index k = (ns4, leaf)"
    by (cases "new_leaf ?ns3 sp c2 index k")
  have ns4: "ns4 = fst (new_leaf ?ns3 sp c2 index k)" by (simp add: nl)
  have u': "u' = u\<lparr>u_nodes := set_suffix_link ns4 (previous_node u) sp,
                    new_leaves := new_leaves u @ [leaf], previous_node := Some sp\<rparr>"
    using run by (simp add: split_edge_def ac Let_def c3 c2 nl)
  have len2: "length ?ns2 = Suc ?n" by (simp add: len1)
  have sp2: "sp < length ?ns2" by (simp add: sp len1)
  have v2: "pv ?ns2 = pv ns1" "ev ?ns2 = ev ns1" "sv ?ns2 = sv ns1"
    by (simp_all add: views_update_same)
  have len3: "length ?ns3 = Suc ?n"
    using views_length(1) [of ?ns3] views_add_existing(1) [OF sp2, of c1 nn]
    by (simp add: v2 views_length len1)
  have sp3: "sp < length ?ns3" unfolding len3 by (simp add: sp)
  have len4: "length ns4 = Suc (Suc ?n)" by (simp add: ns4 length_new_leaf len3)
  let ?P1 = "pv ?ns @ [Some ?an]"
  let ?P3 = "?P1[nn := Some (length (pv ?ns))]"
  let ?P4 = "?P3 @ [Some (length (pv ?ns))]"
  let ?E1 = "(ev ?ns)[?an := (ev ?ns ! ?an)(key \<mapsto> length (pv ?ns))] @ [Map.empty]"
  let ?E3 = "?E1[length (pv ?ns) := (?E1 ! length (pv ?ns))(c1 \<mapsto> nn)]"
  let ?E4 = "?E3[length (pv ?ns) := (?E3 ! length (pv ?ns))(c2 \<mapsto> Suc (length (pv ?ns)))] @ [Map.empty]"
  have R: "linkedv ?P4 ?E4 (sv ?ns @ [None] @ [None])"
    by (rule linkedv_split [OF l' an' key' ne refl refl refl refl refl refl])
  have p1: "pv ns1 = ?P1" and e1: "ev ns1 = ?E1" and s1: "sv ns1 = sv ?ns @ [None]"
    unfolding ns1 by (simp_all add: views_add_child [OF an] views_length)
  have p3: "pv ?ns3 = ?P3" and e3: "ev ?ns3 = ?E3" and s3: "sv ?ns3 = sv ?ns @ [None]"
    unfolding views_add_existing [OF sp2] v2 p1 e1 s1 by (simp_all add: sp views_length)
  have p4: "pv ns4 = ?P4" and e4: "ev ns4 = ?E4" and s4: "sv ns4 = sv ?ns @ [None] @ [None]"
    unfolding ns4 views_new_leaf [OF sp3] p3 e3 s3 len3 by (simp_all add: sp views_length)
  have "linked ns4" unfolding linked_def p4 e4 s4 by (rule R)
  then have "linked (set_suffix_link ns4 (previous_node u) sp)"
    by (rule linked_set_suffix_link) (simp add: len4 sp)
  then show ?thesis
    using an by (simp add: u' link_inv_def length_set_suffix_link len4 sp)
qed

lemma linked_follow_link:
  assumes "link_inv u"
  shows "link_inv (follow_link index u)"
proof -
  let ?ns = "u_nodes u" and ?an = "active_node u"
  from assms have l: "linkedv (pv ?ns) (ev ?ns) (sv ?ns)" and an: "?an < length ?ns"
    and prev: "\<forall>p. previous_node u = Some p \<longrightarrow> p < length ?ns"
    by (simp_all add: link_inv_def linked_def)
  have tgt: "(case suffix_link (?ns ! ?an) of None \<Rightarrow> root | Some x \<Rightarrow> x) < length ?ns"
  proof (cases "suffix_link (?ns ! ?an)")
    case None
    with an show ?thesis by (cases "u_nodes u") (simp_all add: root_def)
  next
    case (Some x)
    with an have "sv ?ns ! ?an = Some x" by (simp add: sv_def)
    from linkedv_suf [OF l _ this] an Some show ?thesis by (simp add: views_length)
  qed
  show ?thesis
    using assms an prev tgt by (simp add: follow_link_def Let_def link_inv_def)
qed

lemma linked_step:
  assumes inv: "link_inv v" and step: "extend_step s k index v = Inr fl"
  shows "link_inv (case fl of Next w \<Rightarrow> w | Break w \<Rightarrow> w)"
proof -
  define u where "u = (if active_length v = 0 then v\<lparr>active_edge := index\<rparr> else v)"
  have iu: "link_inv u" using inv by (simp add: u_def link_inv_def)
  from step u_def show ?thesis
  proof (cases rule: extend_step_cases)
    case (leaf key)
    from linked_insert_leaf [OF iu leaf(2)] have "link_inv (insert_leaf k index u key)" .
    then have "link_inv (follow_link index (insert_leaf k index u key))" by (rule linked_follow_link)
    with leaf(3) show ?thesis by simp
  next
    case (walk key nn)
    from iu have l: "linkedv (pv (u_nodes u)) (ev (u_nodes u)) (sv (u_nodes u))"
      and an: "active_node u < length (u_nodes u)"
      by (simp_all add: link_inv_def linked_def)
    have "(ev (u_nodes u) ! active_node u) key = Some nn" using walk(2) an by (simp add: ev_def)
    from linkedv_edge [OF l _ this] an have "nn < length (u_nodes u)" by (simp add: views_length)
    with iu walk(4) show ?thesis by (simp add: link_inv_def)
  next
    case (rule3 key nn)
    from iu have l: "linked (u_nodes u)" and an: "active_node u < length (u_nodes u)"
      by (simp_all add: link_inv_def)
    from l an have "linked (set_suffix_link (u_nodes u) (previous_node u) (active_node u))"
      by (rule linked_set_suffix_link)
    with an rule3(3) show ?thesis by (simp add: link_inv_def length_set_suffix_link)
  next
    case (split key nn c1 c2 u')
    from linked_split_edge [OF iu split(2,3,4,5,6)] have "link_inv u'" by simp
    then have "link_inv (follow_link index u')" by (rule linked_follow_link)
    with split(7) show ?thesis by simp
  qed
qed

lemma views_set_leaf_ends:
  "pv (set_leaf_ends ns ls en) = pv ns"
  "ev (set_leaf_ends ns ls en) = ev ns"
  "sv (set_leaf_ends ns ls en) = sv ns"
  unfolding set_leaf_ends_def
  by (induction ls arbitrary: ns; simp add: views_update_same)+

lemma linked_append:
  assumes l: "linked (nodes t)" and ne: "nodes t \<noteq> []"
    and app: "append_string t input class_id = Some (Inr t')"
  shows "linked (nodes t') \<and> nodes t' \<noteq> []"
proof -
  from app obtain u' where
    mc: "main_circle (input_string t @ terminated (strings_count t) input) (strings_count t)
       (map int [length (input_string t) ..< length (input_string t @ terminated (strings_count t) input)])
       \<lparr>u_nodes = nodes t, active_node = root, active_edge = 0, active_length = 0,
        remainder = 0, previous_node = None, new_leaves = []\<rparr> = Some (Inr u')"
    and ns: "nodes t' = set_leaf_ends (u_nodes u') (new_leaves u')
                  (int (length (input_string t @ terminated (strings_count t) input)))"
    by (rule append_string_unfold)
  have "link_inv u'"
  proof (rule main_circle_invariant [OF mc, where I = "\<lambda>n. link_inv"])
    show "link_inv \<lparr>u_nodes = nodes t, active_node = root, active_edge = 0, active_length = 0,
        remainder = 0, previous_node = None, new_leaves = []\<rparr>"
      using l ne by (simp add: link_inv_def root_def)
  next
    fix v
    assume "link_inv v"
    then show "link_inv (v\<lparr>previous_node := None, remainder := remainder v + 1\<rparr>)"
      by (simp add: link_inv_def)
  next
    fix index v w
    assume "link_inv v" "extend_step (input_string t @ terminated (strings_count t) input) (strings_count t) index v = Inr (Next w)"
    from linked_step [OF this] show "link_inv w" by simp
  next
    fix index v w
    assume "link_inv v" "extend_step (input_string t @ terminated (strings_count t) input) (strings_count t) index v = Inr (Break w)"
    from linked_step [OF this] show "link_inv w" by simp
  qed
  then have "linked (u_nodes u')" "u_nodes u' \<noteq> []" by (auto simp: link_inv_def)
  then show ?thesis
    unfolding ns linked_def views_set_leaf_ends
    using views_length(1) [of "set_leaf_ends (u_nodes u') (new_leaves u')
                  (int (length (input_string t @ terminated (strings_count t) input)))"]
    by (auto simp: views_set_leaf_ends views_length)
qed

lemma linked_all:
  "append_all new_tree calls = Some (Inr t) \<Longrightarrow> linked (nodes t) \<and> nodes t \<noteq> []"
proof (induction calls arbitrary: t rule: rev_induct)
  case Nil
  have "linkedv [None] [Map.empty] [None]" by (rule linkedvI) simp_all
  moreover from Nil have "t = new_tree" by simp
  ultimately show ?case
    by (simp add: new_tree_def linked_def pv_def ev_def sv_def new_node_def)
next
  case (snoc c calls)
  from snoc.prems obtain t0 where t0: "append_all new_tree calls = Some (Inr t0)"
    and app: "append_string t0 (fst c) (snd c) = Some (Inr t)"
    by (simp add: append_all_snoc split: option.splits sum.splits)
  from snoc.IH [OF t0] have "linked (nodes t0)" "nodes t0 \<noteq> []" by simp_all
  from linked_append [OF this app] show ?case .
qed

section \<open>Propagation of the bit vectors\<close>

lemma sub_bits_or: "(b OR a = b) \<longleftrightarrow> sub_bits a b"
  by (auto simp: sub_bits_def bit_eq_iff bit_or_iff)

lemma sub_bits_refl: "sub_bits a a"
  by (simp add: sub_bits_def)

lemma sub_bits_trans: "sub_bits a b \<Longrightarrow> sub_bits b c \<Longrightarrow> sub_bits a c"
  by (simp add: sub_bits_def)

lemma sub_bits_or_left: "sub_bits a (a OR b)" and sub_bits_or_right: "sub_bits b (a OR b)"
  by (simp_all add: sub_bits_def bit_or_iff)

lemma sub_bits_zero: "sub_bits 0 a"
  by (simp add: sub_bits_def)

lemma sub_bits_nonzero: "sub_bits a b \<Longrightarrow> a \<noteq> 0 \<Longrightarrow> b \<noteq> 0"
  by (auto simp: sub_bits_def bit_eq_iff)

lemma prop_inv_len: "prop_inv ns0 L D x ns \<Longrightarrow> length ns = length ns0"
  unfolding prop_inv_def by blast

lemma prop_inv_struct: "prop_inv ns0 L D x ns \<Longrightarrow> i < length ns0 \<Longrightarrow> same_structure (ns ! i) (ns0 ! i)"
  unfolding prop_inv_def by blast

lemma prop_inv_sound:
  "prop_inv ns0 L D x ns \<Longrightarrow> n < length ns0 \<Longrightarrow> bit (bit_vector (ns ! n)) k \<Longrightarrow>
   \<exists>l\<in>set L. in_subtree ns0 n l \<and> bit (bit_vector (ns0 ! l)) k"
  unfolding prop_inv_def by blast

lemma prop_inv_grow:
  "prop_inv ns0 L D x ns \<Longrightarrow> n < length ns0 \<Longrightarrow> sub_bits (bit_vector (ns0 ! n)) (bit_vector (ns ! n))"
  unfolding prop_inv_def by blast

lemma prop_inv_up:
  "prop_inv ns0 L D x ns \<Longrightarrow> c < length ns0 \<Longrightarrow> parent (ns0 ! c) = Some p \<Longrightarrow> x \<noteq> Some c \<Longrightarrow>
   (c \<in> set L \<Longrightarrow> c \<in> D) \<Longrightarrow> sub_bits (bit_vector (ns ! c)) (bit_vector (ns ! p))"
  unfolding prop_inv_def by blast

lemma prop_invI:
  assumes "length ns = length ns0"
    and "\<And>i. i < length ns0 \<Longrightarrow> same_structure (ns ! i) (ns0 ! i)"
    and "\<And>n k. n < length ns0 \<Longrightarrow> bit (bit_vector (ns ! n)) k \<Longrightarrow>
        \<exists>l\<in>set L. in_subtree ns0 n l \<and> bit (bit_vector (ns0 ! l)) k"
    and "\<And>n. n < length ns0 \<Longrightarrow> sub_bits (bit_vector (ns0 ! n)) (bit_vector (ns ! n))"
    and "\<And>c p. c < length ns0 \<Longrightarrow> parent (ns0 ! c) = Some p \<Longrightarrow> x \<noteq> Some c \<Longrightarrow>
        (c \<in> set L \<longrightarrow> c \<in> D) \<Longrightarrow> sub_bits (bit_vector (ns ! c)) (bit_vector (ns ! p))"
  shows "prop_inv ns0 L D x ns"
  unfolding prop_inv_def using assms by blast

lemma linked_parent:
  assumes "linked ns" "c < length ns" "parent (ns ! c) = Some p"
  shows "p < length ns \<and> child_of ns p c"
proof -
  from assms have "pv ns ! c = Some p" "c < length (pv ns)" by (simp_all add: pv_def)
  from linkedv_parent [OF assms(1) [unfolded linked_def] this(2,1)]
  obtain k where "p < length ns" "(ev ns ! p) k = Some c" by (auto simp: views_length)
  then show ?thesis by (auto simp: child_of_def ev_def ran_def)
qed

lemma linked_child:
  assumes "linked ns" "child_of ns p c"
  shows "c < length ns \<and> parent (ns ! c) = Some p"
proof -
  from assms(2) obtain k where p: "p < length ns" and "map_of (edges (ns ! p)) k = Some c"
    by (auto simp: child_of_def ran_def)
  then have "(ev ns ! p) k = Some c" "p < length (pv ns)" by (simp_all add: ev_def pv_def)
  from linkedv_edge [OF assms(1) [unfolded linked_def] this(2,1)]
  have "c < length (pv ns)" "pv ns ! c = Some p" by simp_all
  then show ?thesis by (simp add: pv_def)
qed

lemma prop_inv_init:
  assumes "\<And>i. i < length ns0 \<Longrightarrow> i \<notin> set L \<Longrightarrow> bit_vector (ns0 ! i) = 0"
  shows "prop_inv ns0 L {} None ns0"
proof (rule prop_invI)
  show "length ns0 = length ns0" by simp
next
  fix i show "same_structure (ns0 ! i) (ns0 ! i)" by (simp add: same_structure_def)
next
  fix n k assume n: "n < length ns0" and b: "bit (bit_vector (ns0 ! n)) k"
  have "n \<in> set L"
  proof (rule ccontr)
    assume "n \<notin> set L"
    from assms [OF n this] b show False by simp
  qed
  moreover have "in_subtree ns0 n n" by (simp add: in_subtree_def)
  ultimately show "\<exists>l\<in>set L. in_subtree ns0 n l \<and> bit (bit_vector (ns0 ! l)) k"
    using b by blast
next
  fix n show "sub_bits (bit_vector (ns0 ! n)) (bit_vector (ns0 ! n))" by (rule sub_bits_refl)
next
  fix c p assume c: "c < length ns0" and "c \<in> set L \<longrightarrow> c \<in> {}"
  then have "c \<notin> set L" by simp
  from assms [OF c this] show "sub_bits (bit_vector (ns0 ! c)) (bit_vector (ns0 ! p))"
    by (simp add: sub_bits_zero)
qed

lemma prop_inv_open:
  assumes "prop_inv ns0 L D None ns"
  shows "prop_inv ns0 L (insert l D) (Some l) ns"
proof (rule prop_invI)
  show "length ns = length ns0" by (rule prop_inv_len [OF assms])
next
  fix i assume "i < length ns0"
  then show "same_structure (ns ! i) (ns0 ! i)" by (rule prop_inv_struct [OF assms])
next
  fix n k assume "n < length ns0" "bit (bit_vector (ns ! n)) k"
  then show "\<exists>l\<in>set L. in_subtree ns0 n l \<and> bit (bit_vector (ns0 ! l)) k"
    by (rule prop_inv_sound [OF assms])
next
  fix n assume "n < length ns0"
  then show "sub_bits (bit_vector (ns0 ! n)) (bit_vector (ns ! n))" by (rule prop_inv_grow [OF assms])
next
  fix c p assume c: "c < length ns0" "parent (ns0 ! c) = Some p" and x: "Some l \<noteq> Some c"
    and g: "c \<in> set L \<longrightarrow> c \<in> insert l D"
  from x g have "c \<in> set L \<Longrightarrow> c \<in> D" by auto
  with c show "sub_bits (bit_vector (ns ! c)) (bit_vector (ns ! p))"
    by (intro prop_inv_up [OF assms]) simp_all
qed

lemma prop_inv_close:
  assumes inv: "prop_inv ns0 L D (Some cur) ns"
    and fin: "\<And>p. parent (ns0 ! cur) = Some p \<Longrightarrow> sub_bits (bit_vector (ns ! cur)) (bit_vector (ns ! p))"
  shows "prop_inv ns0 L D None ns"
proof (rule prop_invI)
  show "length ns = length ns0" by (rule prop_inv_len [OF inv])
next
  fix i assume "i < length ns0"
  then show "same_structure (ns ! i) (ns0 ! i)" by (rule prop_inv_struct [OF inv])
next
  fix n k assume "n < length ns0" "bit (bit_vector (ns ! n)) k"
  then show "\<exists>l\<in>set L. in_subtree ns0 n l \<and> bit (bit_vector (ns0 ! l)) k"
    by (rule prop_inv_sound [OF inv])
next
  fix n assume "n < length ns0"
  then show "sub_bits (bit_vector (ns0 ! n)) (bit_vector (ns ! n))" by (rule prop_inv_grow [OF inv])
next
  fix c p assume c: "c < length ns0" "parent (ns0 ! c) = Some p"
    and g: "c \<in> set L \<longrightarrow> c \<in> D"
  show "sub_bits (bit_vector (ns ! c)) (bit_vector (ns ! p))"
  proof (cases "c = cur")
    case True
    with c(2) show ?thesis by (simp add: fin)
  next
    case False
    with c g show ?thesis by (intro prop_inv_up [OF inv]) simp_all
  qed
qed

lemma prop_inv_step:
  assumes lk: "linked ns0" and inv: "prop_inv ns0 L D (Some cur) ns"
    and cur: "cur < length ns0" and par: "parent (ns0 ! cur) = Some n"
  shows "prop_inv ns0 L D (Some n)
           (ns[n := (ns ! n)\<lparr>bit_vector := bit_vector (ns ! n) OR bit_vector (ns ! cur)\<rparr>])"
proof -
  let ?b = "bit_vector (ns ! n) OR bit_vector (ns ! cur)"
  let ?ns = "ns[n := (ns ! n)\<lparr>bit_vector := ?b\<rparr>]"
  from linked_parent [OF lk cur par] have n: "n < length ns0" and ch: "child_of ns0 n cur" by simp_all
  have len: "length ns = length ns0" by (rule prop_inv_len [OF inv])
  have bn: "bit_vector (?ns ! n) = ?b" using n len by simp
  have bo: "bit_vector (?ns ! i) = bit_vector (ns ! i)" if "i \<noteq> n" for i using that by simp
  have grow: "sub_bits (bit_vector (ns ! i)) (bit_vector (?ns ! i))" for i
    by (cases "i = n") (simp_all add: bn bo sub_bits_or_left sub_bits_refl)
  show ?thesis
  proof (rule prop_invI)
    show "length ?ns = length ns0" by (simp add: len)
  next
    fix i assume i: "i < length ns0"
    from prop_inv_struct [OF inv i] show "same_structure (?ns ! i) (ns0 ! i)"
      using i len by (cases "i = n") (simp_all add: same_structure_def)
  next
    fix m k assume m: "m < length ns0" and b: "bit (bit_vector (?ns ! m)) k"
    show "\<exists>l\<in>set L. in_subtree ns0 m l \<and> bit (bit_vector (ns0 ! l)) k"
    proof (cases "m = n")
      case False
      with b have "bit (bit_vector (ns ! m)) k" by (simp add: bo)
      from prop_inv_sound [OF inv m this] show ?thesis .
    next
      case True
      with b have "bit (bit_vector (ns ! n)) k \<or> bit (bit_vector (ns ! cur)) k"
        by (simp add: bn bit_or_iff)
      then show ?thesis
      proof
        assume "bit (bit_vector (ns ! n)) k"
        from prop_inv_sound [OF inv n this] True show ?thesis by simp
      next
        assume "bit (bit_vector (ns ! cur)) k"
        from prop_inv_sound [OF inv cur this] obtain l where
          l: "l \<in> set L" "in_subtree ns0 cur l" "bit (bit_vector (ns0 ! l)) k" by blast
        from ch l(2) have "in_subtree ns0 n l"
          unfolding in_subtree_def by (rule converse_rtranclp_into_rtranclp)
        with l True show ?thesis by blast
      qed
    qed
  next
    fix m assume "m < length ns0"
    from prop_inv_grow [OF inv this] grow [of m]
    show "sub_bits (bit_vector (ns0 ! m)) (bit_vector (?ns ! m))" by (rule sub_bits_trans)
  next
    fix c p assume c: "c < length ns0" "parent (ns0 ! c) = Some p" and x: "Some n \<noteq> Some c"
      and g: "c \<in> set L \<longrightarrow> c \<in> D"
    from x have cn: "c \<noteq> n" by simp
    show "sub_bits (bit_vector (?ns ! c)) (bit_vector (?ns ! p))"
    proof (cases "c = cur")
      case True
      with c(2) par have "p = n" by simp
      with True cn show ?thesis by (simp add: bn bo sub_bits_or_right)
    next
      case False
      with c g have "sub_bits (bit_vector (ns ! c)) (bit_vector (ns ! p))"
        by (intro prop_inv_up [OF inv]) simp_all
      from this grow [of p] have "sub_bits (bit_vector (ns ! c)) (bit_vector (?ns ! p))"
        by (rule sub_bits_trans)
      with cn show ?thesis by (simp add: bo)
    qed
  qed
qed

lemma propagate_up_fix:
  assumes run: "propagate_up cls (Some l) 0 ns lca = Some (ns', lca')"
    and lk: "linked ns0" and inv: "prop_inv ns0 L D None ns"
    and l: "l < length ns0" and nz: "bit_vector (ns0 ! l) \<noteq> 0"
  shows "prop_inv ns0 L (insert l D) None ns'"
proof -
  define I where "I = (\<lambda>nd prev ns (lca :: nat list).
      (nd = Some l \<and> prev = 0 \<and> prop_inv ns0 L D None ns) \<or>
      (prev \<noteq> 0 \<and> (\<exists>cur<length ns0. bit_vector (ns ! cur) = prev \<and> parent (ns0 ! cur) = nd \<and>
          prop_inv ns0 L (insert l D) (Some cur) ns)))"
  define Q where "Q = (\<lambda>ns (lca :: nat list). prop_inv ns0 L (insert l D) None ns)"
  have "Q ns' lca'"
  proof (rule propagate_up_invariant [where I = I and Q = Q, OF run])
    show "I (Some l) 0 ns lca" using inv by (simp add: I_def)
  next
    fix n prev ns lca
    assume i: "I (Some n) prev ns lca"
      and c: "\<not> (prev \<noteq> 0 \<and> bit_vector (ns ! n) OR prev = bit_vector (ns ! n))"
    let ?b = "bit_vector (ns ! n) OR prev"
    let ?ns = "ns[n := (ns ! n)\<lparr>bit_vector := ?b\<rparr>]"
    let ?lca = "if is_successful cls ?b then set_add lca n else lca"
    from i consider (first) "n = l" "prev = 0" "prop_inv ns0 L D None ns"
      | (later) cur where "prev \<noteq> 0" "cur < length ns0" "bit_vector (ns ! cur) = prev"
          "parent (ns0 ! cur) = Some n" "prop_inv ns0 L (insert l D) (Some cur) ns"
      by (auto simp: I_def)
    then show "I (parent (?ns ! n)) ?b ?ns ?lca"
    proof cases
      case first
      have same: "?ns = ns" using first(1,2) by simp
      from prop_inv_grow [OF first(3) l] nz have "bit_vector (ns ! l) \<noteq> 0"
        by (rule sub_bits_nonzero)
      moreover from prop_inv_struct [OF first(3) l] have "parent (ns0 ! l) = parent (ns ! l)"
        by (simp add: same_structure_def)
      moreover from first(3) have "prop_inv ns0 L (insert l D) (Some l) ns" by (rule prop_inv_open)
      ultimately have "I (parent (ns ! l)) (bit_vector (ns ! l)) ns ?lca"
        unfolding I_def using l by blast
      with first(1,2) show ?thesis unfolding same by simp
    next
      case later
      from linked_parent [OF lk later(2,4)] have n: "n < length ns0" by simp
      have len: "length ns = length ns0" by (rule prop_inv_len [OF later(5)])
      from prop_inv_step [OF lk later(5,2,4)] have s: "prop_inv ns0 L (insert l D) (Some n) ?ns"
        by (simp add: later(3))
      have "?b \<noteq> 0" using later(1) by (simp add: or_eq_0_iff)
      moreover have "bit_vector (?ns ! n) = ?b" using n len by simp
      moreover from prop_inv_struct [OF s n] have "parent (ns0 ! n) = parent (?ns ! n)"
        by (simp add: same_structure_def)
      ultimately show ?thesis unfolding I_def using n s by blast
    qed
  next
    fix n prev ns lca
    assume i: "I (Some n) prev ns lca"
      and c: "prev \<noteq> 0 \<and> bit_vector (ns ! n) OR prev = bit_vector (ns ! n)"
    from i c obtain cur where cur: "cur < length ns0" "bit_vector (ns ! cur) = prev"
          "parent (ns0 ! cur) = Some n" "prop_inv ns0 L (insert l D) (Some cur) ns"
      by (auto simp: I_def)
    from c have "sub_bits prev (bit_vector (ns ! n))" by (simp add: sub_bits_or)
    with cur(2,3) have "\<And>p. parent (ns0 ! cur) = Some p \<Longrightarrow> sub_bits (bit_vector (ns ! cur)) (bit_vector (ns ! p))"
      by simp
    with cur(4) show "Q ns lca" unfolding Q_def by (rule prop_inv_close)
  next
    fix prev ns lca
    assume "I None prev ns lca"
    then obtain cur where cur: "parent (ns0 ! cur) = None" "prop_inv ns0 L (insert l D) (Some cur) ns"
      by (auto simp: I_def)
    from cur(2) show "Q ns lca" unfolding Q_def by (rule prop_inv_close) (simp add: cur(1))
  qed
  then show ?thesis by (simp add: Q_def)
qed

lemma propagate_leaves_fix:
  assumes run: "propagate_leaves cls L ns0 [] = Some (ns', lca')"
    and lk: "linked ns0"
    and lv: "\<And>l. l \<in> set L \<Longrightarrow> l < length ns0 \<and> bit_vector (ns0 ! l) \<noteq> 0"
    and inner: "\<And>i. i < length ns0 \<Longrightarrow> i \<notin> set L \<Longrightarrow> bit_vector (ns0 ! i) = 0"
  shows "\<exists>D. set L \<subseteq> D \<and> prop_inv ns0 L D None ns'"
proof -
  define J where "J = (\<lambda>rest ns (lca :: nat list).
      set rest \<subseteq> set L \<and> (\<exists>D. set L \<subseteq> D \<union> set rest \<and> prop_inv ns0 L D None ns))"
  have "J [] ns' lca'"
  proof (rule propagate_leaves_invariant [where J = J, OF run])
    from prop_inv_init [of ns0 L, OF inner] show "J L ns0 []"
      unfolding J_def by auto
  next
    fix l rest ns lca ns1 lca1
    assume j: "J (l # rest) ns lca" and up: "propagate_up cls (Some l) 0 ns lca = Some (ns1, lca1)"
    from j obtain D where D: "set L \<subseteq> D \<union> set (l # rest)" "prop_inv ns0 L D None ns"
      and sub: "set (l # rest) \<subseteq> set L"
      by (auto simp: J_def)
    from sub have "l \<in> set L" by simp
    from lv [OF this] have l: "l < length ns0" "bit_vector (ns0 ! l) \<noteq> 0" by simp_all
    from propagate_up_fix [OF up lk D(2) l] have "prop_inv ns0 L (insert l D) None ns1" .
    moreover from D(1) have "set L \<subseteq> insert l D \<union> set rest" by auto
    ultimately have "\<exists>D'. set L \<subseteq> D' \<union> set rest \<and> prop_inv ns0 L D' None ns1" by blast
    with sub show "J rest ns1 lca1" unfolding J_def by simp
  qed
  then show ?thesis by (auto simp: J_def)
qed

lemma fixpoint_bits:
  assumes lk: "linked ns0" and inv: "prop_inv ns0 L D None ns" and all: "set L \<subseteq> D"
    and n: "n < length ns0"
  shows "bit (bit_vector (ns ! n)) k \<longleftrightarrow>
         (\<exists>l\<in>set L. in_subtree ns0 n l \<and> bit (bit_vector (ns0 ! l)) k)"
proof
  assume "bit (bit_vector (ns ! n)) k"
  with n show "\<exists>l\<in>set L. in_subtree ns0 n l \<and> bit (bit_vector (ns0 ! l)) k"
    by (intro prop_inv_sound [OF inv])
next
  assume "\<exists>l\<in>set L. in_subtree ns0 n l \<and> bit (bit_vector (ns0 ! l)) k"
  then obtain l where l: "l \<in> set L" "rtranclp (child_of ns0) n l" "bit (bit_vector (ns0 ! l)) k"
    by (auto simp: in_subtree_def)
  from l(2) n have "l < length ns0 \<and> bit (bit_vector (ns ! n)) k"
  proof (induction rule: converse_rtranclp_induct)
    case base
    from prop_inv_grow [OF inv base] l(3) base show ?case by (simp add: sub_bits_def)
  next
    case (step y z)
    from linked_child [OF lk step(1)] have z: "z < length ns0" "parent (ns0 ! z) = Some y" by simp_all
    from step.IH [OF z(1)] have b: "l < length ns0" "bit (bit_vector (ns ! z)) k" by simp_all
    have "sub_bits (bit_vector (ns ! z)) (bit_vector (ns ! y))"
      using z all by (intro prop_inv_up [OF inv]) auto
    with b show ?case by (simp add: sub_bits_def)
  qed
  then show "bit (bit_vector (ns ! n)) k" by simp
qed

section \<open>The string of a leaf\<close>

lemma buffer_take_Suc:
  assumes "i < length calls"
  shows "length (buffer (take i calls)) < length (buffer (take (Suc i) calls))"
proof -
  from assms have "take (Suc i) calls = take i calls @ [calls ! i]"
    by (rule take_Suc_conv_app_nth)
  then show ?thesis by (simp add: buffer_snoc terminated_def)
qed

lemma buffer_take_mono:
  "j < j' \<Longrightarrow> j' \<le> length calls \<Longrightarrow>
   length (buffer (take j calls)) < length (buffer (take j' calls))"
proof (induction j')
  case 0
  then show ?case by simp
next
  case (Suc i)
  then have i: "i < length calls" by simp
  show ?case
  proof (cases "j = i")
    case True
    with i show ?thesis by (simp add: buffer_take_Suc)
  next
    case False
    with Suc have "length (buffer (take j calls)) < length (buffer (take i calls))" by simp
    with buffer_take_Suc [OF i] show ?thesis by simp
  qed
qed

lemma string_of_leaf_unique:
  assumes "string_of_leaf calls nd k" "string_of_leaf calls nd k'"
  shows "k = k'"
proof (rule ccontr)
  assume "k \<noteq> k'"
  then consider "Suc k < Suc k'" | "Suc k' < Suc k" by arith
  then show False
  proof cases
    case 1
    from buffer_take_mono [OF 1, of calls] assms show False by (simp add: string_of_leaf_def)
  next
    case 2
    from buffer_take_mono [OF 2, of calls] assms show False by (simp add: string_of_leaf_def)
  qed
qed

lemma bit_of_one: "bit (push_bit k0 (1 :: int)) k \<longleftrightarrow> k = k0"
  by (auto simp: bit_exp_iff)

lemma child_of_same:
  assumes "length ns = length ns0" "\<And>i. i < length ns0 \<Longrightarrow> same_structure (ns ! i) (ns0 ! i)"
  shows "child_of ns = child_of ns0"
proof (intro ext)
  fix p c
  show "child_of ns p c = child_of ns0 p c"
    using assms(1) assms(2) [of p] by (auto simp: child_of_def same_structure_def)
qed

lemma leaf_bit_string:
  assumes b: "built_inv calls t" and l: "l \<in> set (leaves t)"
    and e: "end_index nd = end_index (nodes t ! l)"
  shows "bit (bit_vector (nodes t ! l)) k \<longleftrightarrow> string_of_leaf calls nd k"
proof -
  from b l obtain k0 where k0: "k0 < length calls" "bit_vector (nodes t ! l) = push_bit k0 1"
    "end_index (nodes t ! l) = int (length (buffer (take (Suc k0) calls)))"
    unfolding built_inv_def by blast
  from k0(1,3) e have s: "string_of_leaf calls nd k0" by (simp add: string_of_leaf_def)
  have "bit (bit_vector (nodes t ! l)) k \<longleftrightarrow> k = k0" by (simp only: k0(2) bit_of_one)
  also have "\<dots> \<longleftrightarrow> string_of_leaf calls nd k"
    using s string_of_leaf_unique [OF s, of k] by auto
  finally show ?thesis .
qed

text \<open>
  With eleven strings a node of the leaf list can get a child: the ending \<open>$10\<close>
  starts like \<open>$1\<close>, so the walk of the active point enters the leaf that holds
  \<open>$1a$2...\<close> (node 5, of string 1) and a leaf of string 10 is hung below it. After the
  propagation node 5 has the bits of both strings.
\<close>

lemma leaf_with_child:
  "tree_summary (append_all new_tree eleven) \<noteq> None \<and>
   vector_after eleven 2 5 = Some 1026"
  by code_simp

section \<open>The reported offsets (C1)\<close>

text \<open>
  C1 asks that every reported offset, sliced out of its input string for the length of
  the key, gives the key back. The code computes the offset of an occurrence as
  \<open>sizes[id] - (from_last - node_substr_len) - matching_len\<close>. When the candidate node
  is itself a leaf, \<open>from_last\<close> stops at the \<open>$\<close> of the leaf's edge while
  \<open>node_substr_len\<close> counts the whole edge with its ending, so the offset is too large
  by the length of the ending. After \<open>append_string("xabxac")\<close> the key \<open>xabxac\<close> is
  reported at offset 2, where the input holds \<open>bxac\<close>.
\<close>

theorem round_trip_broken_at_leaf_candidate:
  "reported (returned (find_after insertion_order scenario_A 1)) ''xabxac'' = Some [[2]]
   \<and> py_slice ''xabxac'' 2 (2 + int (length ''xabxac'')) = ''bxac''
   \<and> map_option (round_trip [''xabxac'']) (returned (find_after insertion_order scenario_A 1))
       = Some False"
  by code_simp

section \<open>Calling find_common_substrings twice (C4)\<close>

text \<open>
  C4 asks that a second call of \<open>find_common_substrings\<close> on the same tree returns what
  the first call returned. The first call leaves the propagated bit vectors in the
  nodes; in the second call every walk stops at the leaf's parent, because the parent
  already holds the leaf's bit, so no inner node is tested and recorded any more. In
  scenario B the first call returns \<open>abc\<close> and \<open>bc\<close>, the second call returns the empty
  dictionary.
\<close>

theorem second_call_differs:
  "returned (find_after insertion_order scenario_B 2)
     = Some [(''abc'', [[0], [3]]), (''bc'', [[1], [4]])]
   \<and> returned (find_twice insertion_order scenario_B 2) = Some []"
  by code_simp

section \<open>The class of a string without class identifier (C8)\<close>

text \<open>
  A string appended without class identifier is registered under the name \<open>$\<close> plus its
  index, in the same dictionary as the names the caller supplies. A caller who supplies
  such a name shares the class: after \<open>append_string("a", "$1")\<close> and
  \<open>append_string("b")\<close> the class \<open>$1\<close> holds both strings.
\<close>

theorem explicit_class_can_take_synthetic_name:
  "classes_after [(''a'', Some ''$1''), (''b'', None)] = Some [(''$1'', [0, 1])]"
  by code_simp

text \<open>
  C8, as the code has it: after any sequence of appends that returned, a string \<open>i\<close>
  appended without class identifier is alone in the class \<open>$i\<close>, provided no call
  supplied \<open>$i\<close> as an explicit class identifier; other explicit identifiers, and
  other strings without one, do not matter.
\<close>

theorem unclassed_string_own_class:
  assumes "append_all new_tree calls = Some (Inr t)"
    and "i < length calls" and "snd (calls ! i) = None"
    and "\<forall>j<length calls. snd (calls ! j) \<noteq> Some (CHR ''$'' # py_str i)"
  shows "map_of (classes t) (CHR ''$'' # py_str i) = Some [i]"
proof -
  have "class_key j (snd (calls ! j)) = CHR ''$'' # py_str i \<longleftrightarrow> j = i" if "j < length calls" for j
    using that assms(3,4) by (cases "snd (calls ! j)") (auto simp: class_key_def dest: py_str_inject)
  then have "members calls (CHR ''$'' # py_str i) = filter (\<lambda>j. j = i) [0 ..< length calls]"
    unfolding members_def by (intro filter_cong) simp_all
  also have "\<dots> = [i]" using assms(2)
    by (induction calls rule: rev_induct) (auto simp: less_Suc_eq)
  finally show ?thesis using classes_members [OF assms(1)] by simp
qed

theorem unclassed_string_own_class_witness:
  "\<exists>t. append_all new_tree [(''a'', Some ''A''), (''b'', None)] = Some (Inr t) \<and>
       map_of (classes t) ''$1'' = Some [1]"
proof -
  let ?calls = "[(''a'', Some ''A''), (''b'', None)]"
  have "succeeded (append_all new_tree ?calls)" by code_simp
  then obtain t where t: "append_all new_tree ?calls = Some (Inr t)"
    by (auto simp: succeeded_def split: option.splits sum.splits)
  have s: "py_str 1 = ''1''" by code_simp
  have "\<forall>j<length ?calls. snd (?calls ! j) \<noteq> Some (CHR ''$'' # py_str 1)"
    by (simp add: s less_Suc_eq)
  from unclassed_string_own_class [OF t _ _ this, of ] t s show ?thesis by auto
qed

section \<open>What find_common_substrings leaves alone (C10)\<close>

text \<open>
  C10: a call of \<open>find_common_substrings\<close> that ends, with a dictionary or with an
  exception, leaves the buffer, the string count, the leaf list and the classes as they
  were, and in every node the fields \<open>start\<close>, \<open>end\<close>, \<open>edges\<close>, \<open>parent\<close> and
  \<open>suffix_link\<close>; only \<open>bit_vector\<close> can differ. This holds for every tree, every
  \<open>min_substr_len\<close> and every iteration order of the candidate set.
\<close>

theorem find_common_substrings_frame:
  assumes "find_common_substrings set_iter t m = Some (t', r)"
  shows "input_string t' = input_string t \<and> strings_count t' = strings_count t \<and>
         leaves t' = leaves t \<and> classes t' = classes t \<and>
         list_all2 same_structure (nodes t) (nodes t')"
proof -
  from assms obtain ns lca where
    p: "propagate_leaves (classes t) (leaves t) (nodes t) [] = Some (ns, lca)"
    and t': "t' = t\<lparr>nodes := ns\<rparr>"
    by (rule find_common_substrings_unfold)
  have "list_all2 same_structure (nodes t) (nodes t)"
    by (simp add: list_all2_conv_all_nth same_structure_def)
  from propagate_leaves_frame [OF p this] show ?thesis by (simp add: t')
qed

theorem find_common_substrings_frame_witness:
  "\<exists>t t' r. append_all new_tree scenario_B = Some (Inr t) \<and>
     find_common_substrings insertion_order t 2 = Some (t', r) \<and>
     input_string t' = input_string t \<and> strings_count t' = strings_count t \<and>
     leaves t' = leaves t \<and> classes t' = classes t \<and>
     list_all2 same_structure (nodes t) (nodes t')"
proof -
  have "succeeded (append_all new_tree scenario_B)" by code_simp
  then obtain t where t: "append_all new_tree scenario_B = Some (Inr t)"
    by (auto simp: succeeded_def split: option.splits sum.splits)
  have "returned (find_after insertion_order scenario_B 2) \<noteq> None" by code_simp
  then obtain t' r where f: "find_common_substrings insertion_order t 2 = Some (t', r)"
    using t by (cases "find_common_substrings insertion_order t 2")
      (auto simp: find_after_def returned_def)
  from find_common_substrings_frame [OF f] t f show ?thesis by blast
qed

section \<open>Returned keys and the input strings (C5)\<close>

text \<open>
  C5 asks that every returned key occurs in a string of every class, and that no key is
  shorter than \<open>min_length\<close>. The second half is the test in line 258. The first half
  breaks on the way the unique ending is removed: the pattern \<open>(.*?)\$?\d*$\<close> also
  matches in front of a newline that ends the label, and it takes digits of the input
  for an ending. With the single string \<open>a1\<newline>ba1\<newline>c\<close> the inner node with the label
  \<open>a1\<newline>\<close> is reported under the key \<open>a\<newline>\<close>, which occurs nowhere in the string.
\<close>

theorem key_outside_the_input:
  "reported (returned (find_after insertion_order scenario_newline 2)) (''a'' @ [CHR 0x0A])
     = Some [[1, 5]]
   \<and> \<not> occurs_in (''a'' @ [CHR 0x0A]) (''a1'' @ [CHR 0x0A] @ ''ba1'' @ [CHR 0x0A] @ ''c'')"
  by code_simp

section \<open>Scenario B (C6)\<close>

text \<open>
  The code reports every candidate node whose label is long enough, not only the longest
  one (\<open>longest_length\<close> is set and never used). In scenario B the node \<open>bc\<close> is a
  candidate as well, and its key has length 2.
\<close>

theorem scenario_B_has_second_key:
  "reported (returned (find_after insertion_order scenario_B 2)) ''abc'' = Some [[0], [3]]
   \<and> reported (returned (find_after insertion_order scenario_B 2)) ''bc'' = Some [[1], [4]]
   \<and> (2 :: int) \<le> int (length ''bc'')"
  by code_simp

text \<open>
  C6, as the code has it: after \<open>append_string("abcdef", "A")\<close> and
  \<open>append_string("xyzabc", "B")\<close> on a fresh tree, \<open>find_common_substrings(2)\<close>
  returns the dictionary with exactly the keys \<open>abc\<close>, at \<open>[[0], [3]]\<close>, and \<open>bc\<close>,
  at \<open>[[1], [4]]\<close>, in whatever order the candidate set is iterated.
\<close>

theorem scenario_B_result:
  assumes "\<forall>xs. set (set_iter xs) = set xs"
  shows "\<exists>f. returned (find_after set_iter scenario_B 2) = Some f \<and>
             map_of f = [''abc'' \<mapsto> [[0], [3]], ''bc'' \<mapsto> [[1], [4]]]"
proof -
  from any_order_result [OF table_B assms] obtain f where
    "returned (find_after set_iter scenario_B 2) = Some f"
    "map_of f = map_of [(''abc'', [[0], [3]]), (''bc'', [[1], [4]])]" by blast
  then show ?thesis by (auto simp: fun_eq_iff)
qed

theorem scenario_B_result_witness:
  "\<exists>f. returned (find_after insertion_order scenario_B 2) = Some f \<and>
       map_of f = [''abc'' \<mapsto> [[0], [3]], ''bc'' \<mapsto> [[1], [4]]]"
  using scenario_B_result [of insertion_order] by (simp add: insertion_order_def)

section \<open>Scenario A (C7)\<close>

text \<open>
  Only nodes of the tree are reported. In \<open>xabxac\<close> every \<open>x\<close> is followed by \<open>a\<close>,
  so no node has the label \<open>x\<close> and the key \<open>x\<close> is not returned; \<open>a\<close> is returned
  with both of its occurrences.
\<close>

theorem scenario_A_has_no_x:
  "returned (find_after insertion_order scenario_A 1) =
     Some [(''xabxac'', [[2]]), (''xa'', [[0, 3]]), (''abxac'', [[3]]), (''a'', [[1, 4]]),
           (''bxac'', [[4]]), (''xac'', [[5]]), (''ac'', [[6]]), (''c'', [[7]])]"
  by code_simp

text \<open>
  C7, as the code has it: after \<open>append_string("xabxac")\<close> on a fresh tree,
  \<open>find_common_substrings(1)\<close> returns \<open>a\<close> with its two occurrences at the offsets 1
  and 4 and \<open>xa\<close> with its two occurrences at the offsets 0 and 3, and it does not
  return the key \<open>x\<close>, in whatever order the candidate set is iterated.
\<close>

theorem scenario_A_result:
  assumes "\<forall>xs. set (set_iter xs) = set xs"
  shows "\<exists>f. returned (find_after set_iter scenario_A 1) = Some f \<and>
             map_of f ''a'' = Some [[1, 4]] \<and> map_of f ''xa'' = Some [[0, 3]] \<and>
             map_of f ''x'' = None"
proof -
  from any_order_result [OF table_A assms] obtain f where
    "returned (find_after set_iter scenario_A 1) = Some f"
    "map_of f = map_of [(''xabxac'', [[2]]), (''xa'', [[0, 3]]), (''abxac'', [[3]]), (''a'', [[1, 4]]),
      (''bxac'', [[4]]), (''xac'', [[5]]), (''ac'', [[6]]), (''c'', [[7]])]" by blast
  then show ?thesis by simp
qed

theorem scenario_A_result_witness:
  "\<exists>f. returned (find_after insertion_order scenario_A 1) = Some f \<and>
       map_of f ''a'' = Some [[1, 4]] \<and> map_of f ''xa'' = Some [[0, 3]] \<and>
       map_of f ''x'' = None"
  using scenario_A_result [of insertion_order] by (simp add: insertion_order_def)

section \<open>Input that contains the delimiter (C2)\<close>

text \<open>
  The source has no check of the input: \<open>append_string\<close> never looks for \<open>$\<close> in
  it and the module defines no input error. A string with the delimiter is appended like
  any other one. On the fresh tree, \<open>append_string("a$b")\<close> returns with the buffer
  \<open>a$b$0\<close>, one string counted and five leaves.
\<close>

theorem delimiter_is_not_rejected:
  "tree_summary (Some (Inr new_tree)) = Some ('''', 0, [])
   \<and> tree_summary (append_string new_tree ''a$b'' None) = Some (''a$b$0'', 1, [1, 2, 3, 5, 6])"
  by code_simp

text \<open>
  C2, as the code has it: for every tree and every input, with or without \<open>$\<close>, a
  call of \<open>append_string\<close> that ends has changed the tree, whether it ends by
  returning or by raising: \<open>strings_count\<close> is one larger and the buffer is longer by
  the input, \<open>$\<close> and the decimal index of the string. So no call ends as a
  rejection that leaves the tree as it was. (The only exception the method can raise is
  the IndexError of indexing the buffer; the buffer and the count are written before
  the first such access.)
\<close>

theorem append_string_never_rejects:
  assumes "append_string t input class_id = Some r"
  shows "strings_count (left_behind r) = strings_count t + 1 \<and>
         input_string (left_behind r) = input_string t @ input @ CHR ''$'' # py_str (strings_count t) \<and>
         left_behind r \<noteq> t"
proof -
  from append_string_ends [OF assms]
  have "strings_count (left_behind r) = strings_count t + 1"
    and "input_string (left_behind r) = input_string t @ input @ CHR ''$'' # py_str (strings_count t)"
    by (simp_all add: terminated_def)
  then show ?thesis by auto
qed

theorem append_string_never_rejects_witness:
  "\<exists>t'. append_string new_tree ''a$b'' None = Some (Inr t') \<and>
        strings_count (left_behind (Inr t')) = 1 \<and>
        input_string (left_behind (Inr t')) = ''a$b$0'' \<and>
        left_behind (Inr t') \<noteq> new_tree"
proof -
  have "succeeded (append_string new_tree ''a$b'' None)" by code_simp
  then obtain t' where t: "append_string new_tree ''a$b'' None = Some (Inr t')"
    by (cases "append_string new_tree ''a$b'' None"; cases "the (append_string new_tree ''a$b'' None)")
       (simp_all add: succeeded_def)
  have "py_str 0 = ''0''" by code_simp
  with append_string_never_rejects [OF t] t show ?thesis
    by (simp add: new_tree_def)
qed

section \<open>Propagation reaches every ancestor (C9)\<close>

text \<open>
  C9: take a tree built by a sequence of \<open>append_string\<close> calls that returned, and a
  first call of \<open>find_common_substrings\<close> that ends. Afterwards bit \<open>k\<close> is set in the
  bit vector of a node exactly if the subtree of the node holds a leaf of string \<open>k\<close>;
  so the vector is the bitwise OR of \<open>1 << k\<close> over the leaves of the subtree, although
  a walk stops as soon as a parent already has the bits it would get. The leaves are the
  nodes of \<open>self.leaves\<close>, the subtree of a node is what its \<open>edges\<close> reach, the node
  included, and the string of a leaf is the one whose ending ends the leaf. This holds for
  every \<open>min_substr_len\<close> and every iteration order of the candidate set.
\<close>

theorem propagation_reaches_fixpoint:
  assumes built: "append_all new_tree calls = Some (Inr t)"
    and run: "find_common_substrings set_iter t m = Some (t', r)"
    and n: "n < length (nodes t')"
  shows "bit (bit_vector (nodes t' ! n)) k \<longleftrightarrow>
         (\<exists>l\<in>set (leaves t'). in_subtree (nodes t') n l \<and> string_of_leaf calls (nodes t' ! l) k)"
proof -
  from run obtain ns lca where
    p: "propagate_leaves (classes t) (leaves t) (nodes t) [] = Some (ns, lca)"
    and t': "t' = t\<lparr>nodes := ns\<rparr>"
    by (rule find_common_substrings_unfold)
  from built have b: "built_inv calls t" by (rule built_inv_all)
  from linked_all [OF built] have lk: "linked (nodes t)" by simp
  have lv: "l < length (nodes t) \<and> bit_vector (nodes t ! l) \<noteq> 0" if "l \<in> set (leaves t)" for l
  proof -
    from b that obtain k0 where "l < length (nodes t)" "bit_vector (nodes t ! l) = push_bit k0 1"
      unfolding built_inv_def by blast
    then show ?thesis by simp
  qed
  have inner: "bit_vector (nodes t ! i) = 0" if "i < length (nodes t)" "i \<notin> set (leaves t)" for i
    using b that unfolding built_inv_def by blast
  from propagate_leaves_fix [OF p lk lv inner] obtain D where
    D: "set (leaves t) \<subseteq> D" and inv: "prop_inv (nodes t) (leaves t) D None ns"
    by blast
  have len: "length ns = length (nodes t)" by (rule prop_inv_len [OF inv])
  have st: "same_structure (ns ! i) (nodes t ! i)" if "i < length (nodes t)" for i
    using that by (rule prop_inv_struct [OF inv])
  have ch: "child_of ns = child_of (nodes t)" using len st by (rule child_of_same)
  from n have n0: "n < length (nodes t)" by (simp add: t' len)
  have "bit (bit_vector (ns ! n)) k \<longleftrightarrow>
        (\<exists>l\<in>set (leaves t). in_subtree (nodes t) n l \<and> bit (bit_vector (nodes t ! l)) k)"
    by (rule fixpoint_bits [OF lk inv D n0])
  also have "\<dots> \<longleftrightarrow> (\<exists>l\<in>set (leaves t). in_subtree (nodes t) n l \<and> string_of_leaf calls (ns ! l) k)"
  proof (intro bex_cong refl conj_cong)
    fix l assume l: "l \<in> set (leaves t)"
    from lv [OF l] have "l < length (nodes t)" by simp
    from st [OF this] have "end_index (ns ! l) = end_index (nodes t ! l)"
      by (simp add: same_structure_def)
    with b l show "bit (bit_vector (nodes t ! l)) k \<longleftrightarrow> string_of_leaf calls (ns ! l) k"
      by (rule leaf_bit_string)
  qed
  finally show ?thesis by (simp add: t' in_subtree_def ch)
qed

theorem propagation_reaches_fixpoint_witness:
  "\<exists>t t' r. append_all new_tree scenario_B = Some (Inr t) \<and>
     find_common_substrings insertion_order t 2 = Some (t', r) \<and>
     root < length (nodes t') \<and> bit_vector (nodes t' ! root) = 3 \<and>
     (bit (bit_vector (nodes t' ! root)) 1 \<longleftrightarrow>
        (\<exists>l\<in>set (leaves t'). in_subtree (nodes t') root l \<and>
           string_of_leaf scenario_B (nodes t' ! l) 1))"
proof -
  have "succeeded (append_all new_tree scenario_B)" by code_simp
  then obtain t where t: "append_all new_tree scenario_B = Some (Inr t)"
    by (auto simp: succeeded_def split: option.splits sum.splits)
  have v: "vector_after scenario_B 2 root = Some 3" by code_simp
  then obtain t' r where f: "find_common_substrings insertion_order t 2 = Some (t', r)"
    and b: "bit_vector (nodes t' ! root) = 3" and n: "root < length (nodes t')"
    using t by (cases "find_common_substrings insertion_order t 2")
      (auto simp: vector_after_def find_after_def split: if_splits)
  from propagation_reaches_fixpoint [OF t f n, of 1] t f n b show ?thesis by blast
qed

end
